theory Spec2Isabelle
  imports Main "HOL-Library.Word"
begin

section \<open>Data model (common/types.hpp, engine/OrderBook.hpp)\<close>

text \<open>
  \<^verbatim>\<open>Price\<close>, \<^verbatim>\<open>Quantity\<close> and \<^verbatim>\<open>OrderId\<close> are \<^verbatim>\<open>uint64_t\<close>: 64-bit words, whose
  \<open>+\<close> and \<open>-\<close> wrap around and whose order is the unsigned one.

  Field names are the source's, with the struct's name in front where two structs share
  a name or the name is a constant of HOL (\<^verbatim>\<open>id\<close>, \<^verbatim>\<open>price\<close>, \<^verbatim>\<open>side\<close>, \<^verbatim>\<open>quantity\<close>).
  The \<^verbatim>\<open>timestamp\<close> fields of \<^verbatim>\<open>Order\<close> and \<^verbatim>\<open>Trade\<close> hold the wall clock at
  construction; no operation of the book reads them and they are left out.
\<close>

type_synonym Price = "64 word"
type_synonym Quantity = "64 word"
type_synonym OrderId = "64 word"

datatype Side = Buy | Sell

record Order =
  order_id :: OrderId
  side :: Side
  price :: Price
  initialQuantity :: Quantity
  remainingQuantity :: Quantity

definition isFilled :: "Order \<Rightarrow> bool" where
  "isFilled ord = (remainingQuantity ord = 0)"

text \<open>The constructor \<^verbatim>\<open>Order(id, side, price, qty)\<close>.\<close>

definition mkOrder :: "OrderId \<Rightarrow> Side \<Rightarrow> Price \<Rightarrow> Quantity \<Rightarrow> Order" where
  "mkOrder i s p qty =
     \<lparr>order_id = i, side = s, price = p, initialQuantity = qty, remainingQuantity = qty\<rparr>"

record Trade =
  trade_price :: Price
  quantity :: Quantity
  makerOrderId :: OrderId
  takerOrderId :: OrderId

record LevelInfo =
  info_price :: Price
  info_quantity :: Quantity

record Level =
  level_price :: Price
  totalVolume :: Quantity
  orders :: "Order list"

text \<open>The constructor \<^verbatim>\<open>Level()\<close>, which \<^verbatim>\<open>book[price]\<close> calls for a new key.\<close>

definition newLevel :: Level where
  "newLevel = \<lparr>level_price = 0, totalVolume = 0, orders = []\<rparr>"

text \<open>
  \<^verbatim>\<open>OrderLocation\<close>. The \<^verbatim>\<open>std::list<Order>::iterator\<close> designates one node of one
  level's list for as long as the node lives. Nodes are made by \<^verbatim>\<open>addToBook\<close> only, which
  files the iterator under the id of the order it has just put into the node, and no
  code changes the id of a stored order; the model therefore names a node by the id of
  the order in it. Dereferencing and erasing look for the first node with that id in
  the list of the level (\<open>deref\<close>, \<open>erase\<close> below).
\<close>

record OrderLocation =
  loc_side :: Side
  loc_price :: Price
  iterator :: OrderId

text \<open>
  A \<^verbatim>\<open>std::map<Price, Level, Compare>\<close> is the list of its (key, value) pairs in
  iteration order: \<^verbatim>\<open>begin()\<close> is the head. \<^verbatim>\<open>bids\<close> compares with
  \<^verbatim>\<open>std::greater\<close>, \<^verbatim>\<open>asks\<close> with \<^verbatim>\<open>std::less\<close>; the comparison is a parameter of
  the operations that insert. \<^verbatim>\<open>orderLookup\<close> is an unordered map.
\<close>

type_synonym BookSide = "(Price \<times> Level) list"

record OrderBook =
  bids :: BookSide
  asks :: BookSide
  orderLookup :: "OrderId \<rightharpoonup> OrderLocation"

definition emptyBook :: OrderBook where
  "emptyBook = \<lparr>bids = [], asks = [], orderLookup = Map.empty\<rparr>"

abbreviation (input) bidsCompare :: "Price \<Rightarrow> Price \<Rightarrow> bool" where
  "bidsCompare \<equiv> (\<lambda>a b. b < a)"

abbreviation (input) asksCompare :: "Price \<Rightarrow> Price \<Rightarrow> bool" where
  "asksCompare \<equiv> (\<lambda>a b. a < b)"

subsection \<open>The operations of the containers\<close>

text \<open>\<^verbatim>\<open>book.find(k)\<close> is \<open>map_of book k\<close>. \<^verbatim>\<open>book[k]\<close> inserts \<^verbatim>\<open>Level()\<close> at the
  place of \<open>k\<close> in the order when the key is absent.\<close>

fun map_index :: "(Price \<Rightarrow> Price \<Rightarrow> bool) \<Rightarrow> Price \<Rightarrow> BookSide \<Rightarrow> BookSide" where
  "map_index cmp k [] = [(k, newLevel)]"
| "map_index cmp k ((k', v) # rest) =
     (if k = k' then (k', v) # rest
      else if cmp k k' then (k, newLevel) # (k', v) # rest
      else (k', v) # map_index cmp k rest)"

text \<open>Writing through a reference to the value stored at key \<open>k\<close>.\<close>

fun map_modify :: "Price \<Rightarrow> (Level \<Rightarrow> Level) \<Rightarrow> BookSide \<Rightarrow> BookSide" where
  "map_modify k f [] = []"
| "map_modify k f ((k', v) # rest) =
     (if k = k' then (k', f v) # rest else (k', v) # map_modify k f rest)"

text \<open>\<^verbatim>\<open>book.erase(it)\<close> for the iterator that \<^verbatim>\<open>find(k)\<close> returned.\<close>

fun map_erase :: "Price \<Rightarrow> BookSide \<Rightarrow> BookSide" where
  "map_erase k [] = []"
| "map_erase k ((k', v) # rest) = (if k = k' then rest else (k', v) # map_erase k rest)"

text \<open>\<^verbatim>\<open>*it\<close> and \<^verbatim>\<open>orders.erase(it)\<close> for a list iterator. Where no node of the list has
  the id, the C++ is undefined; the model reads quantity 0 and erases nothing there.\<close>

fun deref :: "OrderId \<Rightarrow> Order list \<Rightarrow> Order option" where
  "deref it [] = None"
| "deref it (ord # rest) = (if order_id ord = it then Some ord else deref it rest)"

fun erase :: "OrderId \<Rightarrow> Order list \<Rightarrow> Order list" where
  "erase it [] = []"
| "erase it (ord # rest) = (if order_id ord = it then rest else ord # erase it rest)"

section \<open>The order book (engine/OrderBook.cpp)\<close>

subsection \<open>matchAgainstBook\<close>

text \<open>
  The inner loop of \<^verbatim>\<open>matchAgainstBook\<close>, over the orders of one level from
  \<^verbatim>\<open>orderIt\<close> on. It returns the incoming order, the level's \<^verbatim>\<open>totalVolume\<close>, the
  orders left in the list, the index and the trades pushed, in the order pushed.
\<close>

fun matchLevel ::
  "Order \<Rightarrow> Price \<Rightarrow> Quantity \<Rightarrow> Order list \<Rightarrow> (OrderId \<rightharpoonup> OrderLocation) \<Rightarrow>
     Order \<times> Quantity \<times> Order list \<times> (OrderId \<rightharpoonup> OrderLocation) \<times> Trade list" where
  "matchLevel incoming lp vol [] lk = (incoming, vol, [], lk, [])"
| "matchLevel incoming lp vol (bookOrder # rest) lk =
     (if isFilled incoming then (incoming, vol, bookOrder # rest, lk, [])
      else
        let tradeQty = min (remainingQuantity incoming) (remainingQuantity bookOrder);
            trade = \<lparr>trade_price = lp, quantity = tradeQty,
                     makerOrderId = order_id bookOrder, takerOrderId = order_id incoming\<rparr>;
            incoming' = incoming\<lparr>remainingQuantity := remainingQuantity incoming - tradeQty\<rparr>;
            bookOrder' = bookOrder\<lparr>remainingQuantity := remainingQuantity bookOrder - tradeQty\<rparr>;
            vol' = vol - tradeQty
        in if isFilled bookOrder'
           then (case matchLevel incoming' lp vol' rest (lk(order_id bookOrder' := None)) of
                   (inc, v, os, l, ts) \<Rightarrow> (inc, v, os, l, trade # ts))
           else (case matchLevel incoming' lp vol' rest lk of
                   (inc, v, os, l, ts) \<Rightarrow> (inc, v, bookOrder' # os, l, trade # ts)))"

text \<open>The outer loop, over the levels from \<^verbatim>\<open>it\<close> on.\<close>

fun matchAgainstBook ::
  "Order \<Rightarrow> BookSide \<Rightarrow> (OrderId \<rightharpoonup> OrderLocation) \<Rightarrow>
     Order \<times> BookSide \<times> (OrderId \<rightharpoonup> OrderLocation) \<times> Trade list" where
  "matchAgainstBook incoming [] lk = (incoming, [], lk, [])"
| "matchAgainstBook incoming ((k, level) # rest) lk =
     (if isFilled incoming then (incoming, (k, level) # rest, lk, [])
      else
        let priceMatch = (if side incoming = Buy then level_price level \<le> price incoming
                          else price incoming \<le> level_price level)
        in if \<not> priceMatch then (incoming, (k, level) # rest, lk, [])
           else
             (case matchLevel incoming (level_price level) (totalVolume level) (orders level) lk of
                (incoming', vol', orders', lk', trades) \<Rightarrow>
                  let level' = level\<lparr>totalVolume := vol', orders := orders'\<rparr>
                  in if orders' = []
                     then (case matchAgainstBook incoming' rest lk' of
                             (inc, bk, l, ts) \<Rightarrow> (inc, bk, l, trades @ ts))
                     else (case matchAgainstBook incoming' rest lk' of
                             (inc, bk, l, ts) \<Rightarrow> (inc, (k, level') # bk, l, trades @ ts))))"

text \<open>\<^verbatim>\<open>match\<close>: a Buy goes against the asks, a Sell against the bids.\<close>

definition match :: "Order \<Rightarrow> OrderBook \<Rightarrow> Order \<times> OrderBook \<times> Trade list" where
  "match incoming b =
     (if side incoming = Buy
      then (case matchAgainstBook incoming (asks b) (orderLookup b) of
              (inc, bk, l, ts) \<Rightarrow> (inc, b\<lparr>asks := bk, orderLookup := l\<rparr>, ts))
      else (case matchAgainstBook incoming (bids b) (orderLookup b) of
              (inc, bk, l, ts) \<Rightarrow> (inc, b\<lparr>bids := bk, orderLookup := l\<rparr>, ts)))"

subsection \<open>addToBook, addOrder, cancelOrder, getBids, getAsks\<close>

text \<open>\<^verbatim>\<open>orderLookup.insert\<close> leaves an entry that is already there as it is.\<close>

definition addToBook ::
  "(Price \<Rightarrow> Price \<Rightarrow> bool) \<Rightarrow> Order \<Rightarrow> BookSide \<Rightarrow> (OrderId \<rightharpoonup> OrderLocation) \<Rightarrow>
     BookSide \<times> (OrderId \<rightharpoonup> OrderLocation)" where
  "addToBook cmp ord book lk =
     (let book' = map_modify (price ord)
                    (\<lambda>level.
                       let level1 = (if totalVolume level = 0
                                     then level\<lparr>level_price := price ord\<rparr> else level)
                       in level1\<lparr>orders := orders level1 @ [ord],
                                 totalVolume := totalVolume level1 + remainingQuantity ord\<rparr>)
                    (map_index cmp (price ord) book);
          loc = \<lparr>loc_side = side ord, loc_price = price ord, iterator = order_id ord\<rparr>
      in (book', if lk (order_id ord) = None then lk(order_id ord \<mapsto> loc) else lk))"

definition addOrder :: "Order \<Rightarrow> OrderBook \<Rightarrow> Trade list \<times> OrderBook" where
  "addOrder ord b =
     (if orderLookup b (order_id ord) \<noteq> None then ([], b)
      else
        (case match ord b of
           (ord', b', trades) \<Rightarrow>
             if \<not> isFilled ord'
             then (if side ord' = Buy
                   then (case addToBook bidsCompare ord' (bids b') (orderLookup b') of
                           (bk, l) \<Rightarrow> (trades, b'\<lparr>bids := bk, orderLookup := l\<rparr>))
                   else (case addToBook asksCompare ord' (asks b') (orderLookup b') of
                           (bk, l) \<Rightarrow> (trades, b'\<lparr>asks := bk, orderLookup := l\<rparr>)))
             else (trades, b')))"

text \<open>The two branches of \<^verbatim>\<open>cancelOrder\<close> do the same on \<^verbatim>\<open>bids\<close> and on \<^verbatim>\<open>asks\<close>.\<close>

definition cancelInSide :: "OrderLocation \<Rightarrow> BookSide \<Rightarrow> BookSide" where
  "cancelInSide loc book =
     (case map_of book (loc_price loc) of
        None \<Rightarrow> book
      | Some level \<Rightarrow>
          let debit = (case deref (iterator loc) (orders level) of
                         None \<Rightarrow> 0 | Some ord \<Rightarrow> remainingQuantity ord);
              orders' = erase (iterator loc) (orders level);
              book' = map_modify (loc_price loc)
                        (\<lambda>l. l\<lparr>totalVolume := totalVolume l - debit, orders := orders'\<rparr>) book
          in if orders' = [] then map_erase (loc_price loc) book' else book')"

definition cancelOrder :: "OrderId \<Rightarrow> OrderBook \<Rightarrow> bool \<times> OrderBook" where
  "cancelOrder orderId b =
     (case orderLookup b orderId of
        None \<Rightarrow> (False, b)
      | Some loc \<Rightarrow>
          let b' = (if loc_side loc = Buy then b\<lparr>bids := cancelInSide loc (bids b)\<rparr>
                    else b\<lparr>asks := cancelInSide loc (asks b)\<rparr>)
          in (True, b'\<lparr>orderLookup := (orderLookup b)(orderId := None)\<rparr>))"

definition levelInfos :: "BookSide \<Rightarrow> LevelInfo list" where
  "levelInfos book =
     map (\<lambda>(p, level). \<lparr>info_price = p, info_quantity = totalVolume level\<rparr>) book"

definition getBids :: "OrderBook \<Rightarrow> LevelInfo list" where
  "getBids b = levelInfos (bids b)"

definition getAsks :: "OrderBook \<Rightarrow> LevelInfo list" where
  "getAsks b = levelInfos (asks b)"

section \<open>The dispatcher (engine/MatchingEngine.cpp)\<close>

datatype CommandType = Add | Cancel | Stop

record Command =
  cmd_type :: CommandType
  cmd_order :: "Order option"
  cmd_orderId :: "OrderId option"

text \<open>
  What the worker does is recorded as the list of callback invocations. A callback is a
  \<^verbatim>\<open>std::function\<close> that may be empty; the engine's state keeps whether each is set.
\<close>

datatype Event = TradeEvent "Trade list" | BookUpdateEvent

record MatchingEngine =
  orderBook :: OrderBook
  onTrade :: bool
  onBookUpdate :: bool

text \<open>
  The body of the loop of \<^verbatim>\<open>run\<close> after the test for \<^verbatim>\<open>Stop\<close>. \<^verbatim>\<open>addOrder\<close> takes its
  order by value, so \<^verbatim>\<open>cmd.order->isFilled()\<close> reads the order as it was queued.
\<close>

definition processCommand :: "Command \<Rightarrow> MatchingEngine \<Rightarrow> MatchingEngine \<times> Event list" where
  "processCommand cmd e =
     (case (cmd_type cmd, cmd_order cmd, cmd_orderId cmd) of
        (Add, Some ord, _) \<Rightarrow>
          (case addOrder ord (orderBook e) of
             (trades, book') \<Rightarrow>
               let tradeEvents = (if trades \<noteq> [] \<and> onTrade e then [TradeEvent trades] else []);
                   bookChanged = (trades \<noteq> [] \<or> \<not> isFilled ord)
               in (e\<lparr>orderBook := book'\<rparr>,
                   tradeEvents @ (if bookChanged \<and> onBookUpdate e then [BookUpdateEvent] else [])))
      | (Cancel, _, Some orderId) \<Rightarrow>
          (case cancelOrder orderId (orderBook e) of
             (found, book') \<Rightarrow>
               (e\<lparr>orderBook := book'\<rparr>,
                if found \<and> onBookUpdate e then [BookUpdateEvent] else []))
      | _ \<Rightarrow> (e, []))"

text \<open>
  \<^verbatim>\<open>run\<close> on the commands in the queue, oldest first. \<^verbatim>\<open>running\<close> is true from
  \<^verbatim>\<open>start\<close> until the worker has been joined, so the loop ends at \<^verbatim>\<open>Stop\<close> only; on an
  empty queue the worker waits, and the model returns what has happened so far.
\<close>

fun run :: "Command list \<Rightarrow> MatchingEngine \<Rightarrow> MatchingEngine \<times> Event list" where
  "run [] e = (e, [])"
| "run (cmd # queue) e =
     (if cmd_type cmd = Stop then (e, [])
      else (case processCommand cmd e of
              (e', evs) \<Rightarrow> (case run queue e' of (e'', evs') \<Rightarrow> (e'', evs @ evs'))))"

text \<open>A fresh engine with both callbacks set, as \<^verbatim>\<open>main\<close> builds it.\<close>

definition newEngine :: MatchingEngine where
  "newEngine = \<lparr>orderBook = emptyBook, onTrade = True, onBookUpdate = True\<rparr>"

section \<open>Sequences of operations on a book\<close>

datatype BookOp = AddOrder Order | CancelOrder OrderId

fun applyOp :: "OrderBook \<Rightarrow> BookOp \<Rightarrow> OrderBook" where
  "applyOp b (AddOrder ord) = snd (addOrder ord b)"
| "applyOp b (CancelOrder i) = snd (cancelOrder i b)"

definition bookAfter :: "BookOp list \<Rightarrow> OrderBook" where
  "bookAfter ops = foldl applyOp emptyBook ops"

section \<open>Notions used in the statements\<close>

text \<open>
  The orders resting on one side, level by level in iteration order and within a level
  from the head of its list; the orders resting in the book, bids before asks.
\<close>

definition all_orders :: "BookSide \<Rightarrow> Order list" where
  "all_orders book = concat (map (\<lambda>kl. orders (snd kl)) book)"

definition resting :: "OrderBook \<Rightarrow> Order list" where
  "resting b = all_orders (bids b) @ all_orders (asks b)"

text \<open>
  The entry that \<^verbatim>\<open>addToBook\<close> files in the index for an order, and the index that a
  list of resting orders determines.
\<close>

definition locator :: "Order \<Rightarrow> OrderLocation" where
  "locator ord = \<lparr>loc_side = side ord, loc_price = price ord, iterator = order_id ord\<rparr>"

definition index_entry :: "Order \<Rightarrow> OrderId \<times> OrderLocation" where
  "index_entry ord = (order_id ord, locator ord)"

definition index_of :: "Order list \<Rightarrow> (OrderId \<rightharpoonup> OrderLocation)" where
  "index_of os = map_of (map index_entry os)"

text \<open>The price test of \<^verbatim>\<open>matchAgainstBook\<close> for a level of price \<open>lp\<close>.\<close>

definition crosses :: "Order \<Rightarrow> Price \<Rightarrow> bool" where
  "crosses incoming lp =
     (if side incoming = Buy then lp \<le> price incoming else price incoming \<le> lp)"

text \<open>The trade record that \<^verbatim>\<open>matchAgainstBook\<close> pushes, and the body of \<^verbatim>\<open>addToBook\<close>
  on the level found.\<close>

definition mkTrade :: "Price \<Rightarrow> Quantity \<Rightarrow> Order \<Rightarrow> Order \<Rightarrow> Trade" where
  "mkTrade lp q maker taker =
     \<lparr>trade_price = lp, quantity = q, makerOrderId = order_id maker, takerOrderId = order_id taker\<rparr>"

definition restOrder :: "Order \<Rightarrow> Level \<Rightarrow> Level" where
  "restOrder ord level =
     (let level1 = (if totalVolume level = 0 then level\<lparr>level_price := price ord\<rparr> else level)
      in level1\<lparr>orders := orders level1 @ [ord],
                totalVolume := totalVolume level1 + remainingQuantity ord\<rparr>)"

text \<open>
  Quantities as numbers: the traded quantity of a list of trades, the remaining quantity
  of a list of orders and of the orders of a level. These sums do not wrap.
\<close>

definition tradedQty :: "Trade list \<Rightarrow> nat" where
  "tradedQty ts = sum_list (map (\<lambda>t. unat (quantity t)) ts)"

definition restingQty :: "Order list \<Rightarrow> nat" where
  "restingQty os = sum_list (map (\<lambda>ord. unat (remainingQuantity ord)) os)"

definition quantitySum :: "Level \<Rightarrow> nat" where
  "quantitySum L = sum_list (map (\<lambda>ord. unat (remainingQuantity ord)) (orders L))"

text \<open>
  The decrease in remaining quantity that one \<open>addOrder\<close> causes, summed over the
  incoming order and the resting orders: what the incoming order has lost when
  \<^verbatim>\<open>match\<close> returns, plus what the resting orders have lost (an order that was filled
  and erased has lost all it had; an order not traded against has lost nothing). An
  order with a duplicate id is turned away before \<^verbatim>\<open>match\<close> and nothing decreases.
\<close>

definition remainingDecrease :: "Order \<Rightarrow> OrderBook \<Rightarrow> int" where
  "remainingDecrease ord b =
     (if orderLookup b (order_id ord) \<noteq> None then 0
      else (case match ord b of
              (ord', b', trades) \<Rightarrow>
                (uint (remainingQuantity ord) - uint (remainingQuantity ord'))
                + (int (restingQty (resting b)) - int (restingQty (resting b')))))"

text \<open>
  The invariant of the book. A level of one side is well formed when its price is its
  key, its list is not empty, its volume is the sum (in 64 bits) of the remaining
  quantities, and each of its orders has a remaining quantity, the side of the book side
  and the price of the level. The book is well formed when both sides are sorted by
  their comparison and made of well-formed levels, no id rests twice, the index is the
  one the resting orders determine, and every bid key is below every ask key.
\<close>

definition level_ok :: "Side \<Rightarrow> Price \<Rightarrow> Level \<Rightarrow> bool" where
  "level_ok s k L =
     (level_price L = k \<and> orders L \<noteq> []
      \<and> totalVolume L = sum_list (map remainingQuantity (orders L))
      \<and> (\<forall>ord\<in>set (orders L). remainingQuantity ord \<noteq> 0 \<and> side ord = s \<and> price ord = k))"

definition side_ok :: "Side \<Rightarrow> BookSide \<Rightarrow> bool" where
  "side_ok s book = (\<forall>(k, L)\<in>set book. level_ok s k L)"

definition uncrossed :: "OrderBook \<Rightarrow> bool" where
  "uncrossed b = (\<forall>kb\<in>fst ` set (bids b). \<forall>ka\<in>fst ` set (asks b). kb < ka)"

definition book_inv :: "OrderBook \<Rightarrow> bool" where
  "book_inv b =
     (sorted_wrt bidsCompare (map fst (bids b)) \<and> sorted_wrt asksCompare (map fst (asks b))
      \<and> side_ok Buy (bids b) \<and> side_ok Sell (asks b)
      \<and> distinct (map order_id (resting b))
      \<and> orderLookup b = index_of (resting b)
      \<and> uncrossed b)"

section \<open>Evaluation of the operations\<close>

lemmas eval_defs = bookAfter_def addOrder_def emptyBook_def match_def mkOrder_def isFilled_def
  addToBook_def newLevel_def getAsks_def getBids_def levelInfos_def cancelOrder_def
  cancelInSide_def matchAgainstBook.simps(2) matchLevel.simps(2)

lemma matchAgainstBook_filled:
  "isFilled incoming \<Longrightarrow> matchAgainstBook incoming book lk = (incoming, book, lk, [])"
  by (cases book) auto

lemma match_filled: "isFilled incoming \<Longrightarrow> match incoming b = (incoming, b, [])"
  by (simp add: match_def matchAgainstBook_filled)

section \<open>The inner loop of matchAgainstBook\<close>

lemma index_entry_update [simp]:
  "index_entry (ord\<lparr>remainingQuantity := r\<rparr>) = index_entry ord"
  by (simp add: index_entry_def locator_def)

lemma fst_index_entry [simp]: "fst (index_entry ord) = order_id ord"
  by (simp add: index_entry_def)

lemma matchLevel_filled:
  "isFilled incoming \<Longrightarrow> matchLevel incoming lp vol os lk = (incoming, vol, os, lk, [])"
  by (cases os) auto

lemma matchLevel_partial:
  assumes "\<not> isFilled incoming" "remainingQuantity incoming < remainingQuantity m"
  shows "matchLevel incoming lp vol (m # rest) lk =
           (incoming\<lparr>remainingQuantity := 0\<rparr>, vol - remainingQuantity incoming,
            m\<lparr>remainingQuantity := remainingQuantity m - remainingQuantity incoming\<rparr> # rest, lk,
            [mkTrade lp (remainingQuantity incoming) m incoming])"
  using assms
  by (auto simp: Let_def min_def matchLevel_filled isFilled_def mkTrade_def)

lemma matchLevel_consume:
  assumes "\<not> isFilled incoming" "\<not> remainingQuantity incoming < remainingQuantity m"
  shows "matchLevel incoming lp vol (m # rest) lk =
           (case matchLevel (incoming\<lparr>remainingQuantity := remainingQuantity incoming - remainingQuantity m\<rparr>)
                   lp (vol - remainingQuantity m) rest (lk(order_id m := None)) of
              (inc, v, os, l, ts) \<Rightarrow> (inc, v, os, l, mkTrade lp (remainingQuantity m) m incoming # ts))"
  using assms
  by (auto simp: Let_def min_def isFilled_def mkTrade_def)

declare matchLevel.simps(2) [simp del]

lemma matchLevel_cases_induct [case_names Nil Filled Partial Consume]:
  assumes "\<And>incoming vol lk. P incoming vol [] lk"
    and "\<And>incoming vol m rest lk. isFilled incoming \<Longrightarrow> P incoming vol (m # rest) lk"
    and "\<And>incoming vol m rest lk.
           \<not> isFilled incoming \<Longrightarrow> remainingQuantity incoming < remainingQuantity m \<Longrightarrow>
           P incoming vol (m # rest) lk"
    and "\<And>incoming vol m rest lk.
           \<not> isFilled incoming \<Longrightarrow> \<not> remainingQuantity incoming < remainingQuantity m \<Longrightarrow>
           P (incoming\<lparr>remainingQuantity := remainingQuantity incoming - remainingQuantity m\<rparr>)
             (vol - remainingQuantity m) rest (lk(order_id m := None)) \<Longrightarrow>
           P incoming vol (m # rest) lk"
  shows "P incoming vol os lk"
proof (induction os arbitrary: incoming vol lk)
  case Nil
  show ?case by (rule assms(1))
next
  case (Cons m rest)
  show ?case
  proof (cases "isFilled incoming")
    case True
    then show ?thesis by (rule assms(2))
  next
    case False
    show ?thesis
    proof (cases "remainingQuantity incoming < remainingQuantity m")
      case True
      with False show ?thesis by (rule assms(3))
    next
      case nlt: False
      from False nlt Cons.IH show ?thesis by (rule assms(4))
    qed
  qed
qed

lemma matchLevel_incoming:
  "matchLevel incoming lp vol os lk = (inc', vol', os', lk', ts) \<Longrightarrow>
   inc' = incoming\<lparr>remainingQuantity := remainingQuantity inc'\<rparr>
   \<and> remainingQuantity inc' \<le> remainingQuantity incoming"
proof (induction incoming vol os lk arbitrary: inc' vol' os' lk' ts rule: matchLevel_cases_induct)
  case (Consume incoming vol m rest lk)
  obtain i v os l t where r: "matchLevel (incoming\<lparr>remainingQuantity := remainingQuantity incoming - remainingQuantity m\<rparr>)
                   lp (vol - remainingQuantity m) rest (lk(order_id m := None)) = (i, v, os, l, t)"
    by (metis prod_cases5)
  from Consume.IH [OF r] Consume.prems Consume.hyps r
  have "inc' = i" "i = incoming\<lparr>remainingQuantity := remainingQuantity i\<rparr>"
       "remainingQuantity i \<le> remainingQuantity incoming - remainingQuantity m"
    by (auto simp: matchLevel_consume)
  moreover have "remainingQuantity incoming - remainingQuantity m \<le> remainingQuantity incoming"
    using Consume.hyps(2) by (simp add: word_sub_le not_less)
  ultimately show ?case by auto
qed (auto simp: matchLevel_filled matchLevel_partial)

lemma matchLevel_ids:
  "matchLevel incoming lp vol os lk = (inc', vol', os', lk', ts) \<Longrightarrow>
   \<exists>pre. map index_entry os = pre @ map index_entry os'
         \<and> lk' = (\<lambda>x. if x \<in> fst ` set pre then None else lk x)"
proof (induction incoming vol os lk arbitrary: inc' vol' os' lk' ts rule: matchLevel_cases_induct)
  case (Consume incoming vol m rest lk)
  obtain i v os l t where r: "matchLevel (incoming\<lparr>remainingQuantity := remainingQuantity incoming - remainingQuantity m\<rparr>)
                   lp (vol - remainingQuantity m) rest (lk(order_id m := None)) = (i, v, os, l, t)"
    by (metis prod_cases5)
  from Consume.IH [OF r] obtain pre where
    pre: "map index_entry rest = pre @ map index_entry os"
         "l = (\<lambda>x. if x \<in> fst ` set pre then None else (lk(order_id m := None)) x)"
    by blast
  from Consume.prems Consume.hyps r have eq: "os' = os" "lk' = l"
    by (auto simp: matchLevel_consume)
  have "map index_entry (m # rest) = (index_entry m # pre) @ map index_entry os'"
    using pre eq by simp
  moreover have "lk' = (\<lambda>x. if x \<in> fst ` set (index_entry m # pre) then None else lk x)"
    using pre eq by (auto simp: fun_eq_iff)
  ultimately show ?case by blast
qed (auto simp: matchLevel_filled matchLevel_partial)

lemma matchLevel_orders:
  "matchLevel incoming lp vol os lk = (inc', vol', os', lk', ts) \<Longrightarrow> o' \<in> set os' \<Longrightarrow>
   o' \<in> set os \<or> (\<exists>ord\<in>set os. o' = ord\<lparr>remainingQuantity := remainingQuantity o'\<rparr>
                              \<and> remainingQuantity o' \<noteq> 0)"
proof (induction incoming vol os lk arbitrary: inc' vol' os' lk' ts rule: matchLevel_cases_induct)
  case (Consume incoming vol m rest lk)
  obtain i v os l t where r: "matchLevel (incoming\<lparr>remainingQuantity := remainingQuantity incoming - remainingQuantity m\<rparr>)
                   lp (vol - remainingQuantity m) rest (lk(order_id m := None)) = (i, v, os, l, t)"
    by (metis prod_cases5)
  from Consume.prems Consume.hyps r have eq: "os' = os"
    by (auto simp: matchLevel_consume)
  from Consume.IH [OF r] Consume.prems(2) eq show ?case by auto
qed (auto simp: matchLevel_filled matchLevel_partial)

lemma matchLevel_volume:
  "matchLevel incoming lp vol os lk = (inc', vol', os', lk', ts) \<Longrightarrow>
   vol' - sum_list (map remainingQuantity os') = vol - sum_list (map remainingQuantity os)"
proof (induction incoming vol os lk arbitrary: inc' vol' os' lk' ts rule: matchLevel_cases_induct)
  case (Consume incoming vol m rest lk)
  obtain i v os l t where r: "matchLevel (incoming\<lparr>remainingQuantity := remainingQuantity incoming - remainingQuantity m\<rparr>)
                   lp (vol - remainingQuantity m) rest (lk(order_id m := None)) = (i, v, os, l, t)"
    by (metis prod_cases5)
  from Consume.prems Consume.hyps r have eq: "os' = os" "vol' = v"
    by (auto simp: matchLevel_consume)
  from Consume.IH [OF r] eq show ?case by simp
qed (auto simp: matchLevel_filled matchLevel_partial)

lemma matchLevel_unfilled:
  "matchLevel incoming lp vol os lk = (inc', vol', os', lk', ts) \<Longrightarrow> \<not> isFilled inc' \<Longrightarrow> os' = []"
proof (induction incoming vol os lk arbitrary: inc' vol' os' lk' ts rule: matchLevel_cases_induct)
  case (Consume incoming vol m rest lk)
  obtain i v os l t where r: "matchLevel (incoming\<lparr>remainingQuantity := remainingQuantity incoming - remainingQuantity m\<rparr>)
                   lp (vol - remainingQuantity m) rest (lk(order_id m := None)) = (i, v, os, l, t)"
    by (metis prod_cases5)
  from Consume.prems Consume.hyps r have eq: "os' = os" "inc' = i"
    by (auto simp: matchLevel_consume)
  from Consume.IH [OF r] Consume.prems(2) eq show ?case by simp
qed (auto simp: matchLevel_filled matchLevel_partial isFilled_def)

lemma matchLevel_trades:
  "matchLevel incoming lp vol os lk = (inc', vol', os', lk', ts) \<Longrightarrow> t \<in> set ts \<Longrightarrow>
   trade_price t = lp \<and> takerOrderId t = order_id incoming \<and> makerOrderId t \<in> order_id ` set os"
proof (induction incoming vol os lk arbitrary: inc' vol' os' lk' ts rule: matchLevel_cases_induct)
  case (Consume incoming vol m rest lk)
  obtain i v os l t' where r: "matchLevel (incoming\<lparr>remainingQuantity := remainingQuantity incoming - remainingQuantity m\<rparr>)
                   lp (vol - remainingQuantity m) rest (lk(order_id m := None)) = (i, v, os, l, t')"
    by (metis prod_cases5)
  from Consume.prems Consume.hyps r
  have eq: "ts = mkTrade lp (remainingQuantity m) m incoming # t'"
    by (auto simp: matchLevel_consume)
  from Consume.IH [OF r] Consume.prems(2) eq show ?case by (auto simp: mkTrade_def)
qed (auto simp: matchLevel_filled matchLevel_partial mkTrade_def)

lemma matchLevel_conservation:
  "matchLevel incoming lp vol os lk = (inc', vol', os', lk', ts) \<Longrightarrow>
   unat (remainingQuantity inc') + tradedQty ts = unat (remainingQuantity incoming)
   \<and> restingQty os' + tradedQty ts = restingQty os"
proof (induction incoming vol os lk arbitrary: inc' vol' os' lk' ts rule: matchLevel_cases_induct)
  case (Partial incoming vol m rest lk)
  then show ?case
    by (auto simp: matchLevel_partial mkTrade_def tradedQty_def restingQty_def unat_sub
        word_le_nat_alt word_less_nat_alt)
next
  case (Consume incoming vol m rest lk)
  obtain i v os l t' where r: "matchLevel (incoming\<lparr>remainingQuantity := remainingQuantity incoming - remainingQuantity m\<rparr>)
                   lp (vol - remainingQuantity m) rest (lk(order_id m := None)) = (i, v, os, l, t')"
    by (metis prod_cases5)
  from Consume.prems Consume.hyps r
  have eq: "ts = mkTrade lp (remainingQuantity m) m incoming # t'" "inc' = i" "os' = os"
    by (auto simp: matchLevel_consume)
  have le: "remainingQuantity m \<le> remainingQuantity incoming"
    using Consume.hyps(2) by (simp add: not_less)
  from Consume.IH [OF r] eq le show ?case
    by (auto simp: mkTrade_def tradedQty_def restingQty_def unat_sub word_le_nat_alt)
qed (auto simp: matchLevel_filled tradedQty_def restingQty_def)

section \<open>The outer loop of matchAgainstBook\<close>

lemma all_orders_simps [simp]:
  "all_orders [] = []"
  "all_orders ((k, level) # rest) = orders level @ all_orders rest"
  "all_orders (xs @ ys) = all_orders xs @ all_orders ys"
  by (simp_all add: all_orders_def)

lemma matchAgainstBook_nocross:
  "\<not> isFilled incoming \<Longrightarrow> \<not> crosses incoming (level_price level) \<Longrightarrow>
   matchAgainstBook incoming ((k, level) # rest) lk = (incoming, (k, level) # rest, lk, [])"
  by (auto simp: crosses_def)

lemma matchAgainstBook_cross:
  assumes "\<not> isFilled incoming" "crosses incoming (level_price level)"
    and "matchLevel incoming (level_price level) (totalVolume level) (orders level) lk
           = (inc1, vol1, os1, lk1, ts1)"
  shows "matchAgainstBook incoming ((k, level) # rest) lk =
           (if os1 = []
            then (case matchAgainstBook inc1 rest lk1 of
                    (inc, bk, l, ts) \<Rightarrow> (inc, bk, l, ts1 @ ts))
            else (inc1, (k, level\<lparr>totalVolume := vol1, orders := os1\<rparr>) # rest, lk1, ts1))"
proof (cases "os1 = []")
  case True
  with assms show ?thesis by (auto simp: crosses_def)
next
  case False
  with assms(3) have "isFilled inc1" using matchLevel_unfilled by blast
  with assms False show ?thesis
    by (auto simp: crosses_def matchAgainstBook_filled)
qed

declare matchAgainstBook.simps(2) [simp del]

lemma matchAgainstBook_cases_induct [case_names Nil Filled NoCross Stop Sweep]:
  assumes "\<And>incoming lk. P incoming [] lk"
    and "\<And>incoming k level rest lk. isFilled incoming \<Longrightarrow> P incoming ((k, level) # rest) lk"
    and "\<And>incoming k level rest lk.
           \<not> isFilled incoming \<Longrightarrow> \<not> crosses incoming (level_price level) \<Longrightarrow>
           P incoming ((k, level) # rest) lk"
    and "\<And>incoming k level rest lk inc1 vol1 os1 lk1 ts1.
           \<not> isFilled incoming \<Longrightarrow> crosses incoming (level_price level) \<Longrightarrow>
           matchLevel incoming (level_price level) (totalVolume level) (orders level) lk
             = (inc1, vol1, os1, lk1, ts1) \<Longrightarrow>
           os1 \<noteq> [] \<Longrightarrow> isFilled inc1 \<Longrightarrow>
           P incoming ((k, level) # rest) lk"
    and "\<And>incoming k level rest lk inc1 vol1 lk1 ts1.
           \<not> isFilled incoming \<Longrightarrow> crosses incoming (level_price level) \<Longrightarrow>
           matchLevel incoming (level_price level) (totalVolume level) (orders level) lk
             = (inc1, vol1, [], lk1, ts1) \<Longrightarrow>
           P inc1 rest lk1 \<Longrightarrow>
           P incoming ((k, level) # rest) lk"
  shows "P incoming book idx"
proof -
  have "\<forall>incoming idx. P incoming book idx"
  proof (induction book)
    case Nil
    show ?case using assms(1) by blast
  next
    case (Cons kl rest)
    obtain k level where kl: "kl = (k, level)" by (cases kl)
    show ?case
    proof (intro allI)
      fix incoming idx
      show "P incoming (kl # rest) idx"
      proof (cases "isFilled incoming")
        case True
        then show ?thesis unfolding kl by (rule assms(2))
      next
        case nf: False
        show ?thesis
        proof (cases "crosses incoming (level_price level)")
          case False
          with nf show ?thesis unfolding kl by (rule assms(3))
        next
          case True
          obtain inc1 vol1 os1 lk1 ts1 where
            r: "matchLevel incoming (level_price level) (totalVolume level) (orders level) idx
                  = (inc1, vol1, os1, lk1, ts1)"
            by (metis prod_cases5)
          show ?thesis
          proof (cases "os1 = []")
            case emp: True
            with r have r': "matchLevel incoming (level_price level) (totalVolume level)
                               (orders level) idx = (inc1, vol1, [], lk1, ts1)"
              by simp
            have ih: "P inc1 rest lk1" using Cons.IH by blast
            from nf True r' ih show ?thesis unfolding kl by (rule assms(5))
          next
            case False
            with r have "isFilled inc1" using matchLevel_unfilled by blast
            with nf True r False show ?thesis unfolding kl by (rule assms(4))
          qed
        qed
      qed
    qed
  qed
  then show ?thesis by blast
qed

lemma matchAgainstBook_stop:
  assumes "\<not> isFilled incoming" "crosses incoming (level_price level)"
    and "matchLevel incoming (level_price level) (totalVolume level) (orders level) lk
           = (inc1, vol1, os1, lk1, ts1)" "os1 \<noteq> []"
  shows "matchAgainstBook incoming ((k, level) # rest) lk =
           (inc1, (k, level\<lparr>totalVolume := vol1, orders := os1\<rparr>) # rest, lk1, ts1)"
  using assms by (simp add: matchAgainstBook_cross)

lemma matchAgainstBook_sweep:
  assumes "\<not> isFilled incoming" "crosses incoming (level_price level)"
    and "matchLevel incoming (level_price level) (totalVolume level) (orders level) lk
           = (inc1, vol1, [], lk1, ts1)"
  shows "matchAgainstBook incoming ((k, level) # rest) lk =
           (case matchAgainstBook inc1 rest lk1 of
              (inc, bk, l, ts) \<Rightarrow> (inc, bk, l, ts1 @ ts))"
  using assms by (simp add: matchAgainstBook_cross)

lemmas matchAgainstBook_eqs =
  matchAgainstBook_filled matchAgainstBook_nocross matchAgainstBook_stop matchAgainstBook_sweep

lemma matchAgainstBook_incoming:
  "matchAgainstBook incoming book lk = (inc', book', lk', ts) \<Longrightarrow>
   inc' = incoming\<lparr>remainingQuantity := remainingQuantity inc'\<rparr>
   \<and> remainingQuantity inc' \<le> remainingQuantity incoming"
proof (induction incoming book lk arbitrary: inc' book' lk' ts rule: matchAgainstBook_cases_induct)
  case (Stop incoming k level rest lk inc1 vol1 os1 lk1 ts1)
  then show ?case
    using matchLevel_incoming [OF Stop.hyps(3)] by (auto simp: matchAgainstBook_eqs)
next
  case (Sweep incoming k level rest lk inc1 vol1 lk1 ts1)
  obtain i bk l t where r: "matchAgainstBook inc1 rest lk1 = (i, bk, l, t)"
    by (metis prod_cases4)
  from Sweep.prems Sweep.hyps r have eq: "inc' = i"
    by (auto simp: matchAgainstBook_eqs)
  from Sweep.IH [OF r] matchLevel_incoming [OF Sweep.hyps(3)] eq
  have "inc' = inc1\<lparr>remainingQuantity := remainingQuantity inc'\<rparr>"
       "inc1 = incoming\<lparr>remainingQuantity := remainingQuantity inc1\<rparr>"
       "remainingQuantity inc' \<le> remainingQuantity inc1"
       "remainingQuantity inc1 \<le> remainingQuantity incoming"
    by auto
  then show ?case
    by (metis (no_types, lifting) Order.surjective Order.update_convs(5) order_trans)
qed (auto simp: matchAgainstBook_eqs)

lemma matchAgainstBook_ids:
  "matchAgainstBook incoming book lk = (inc', book', lk', ts) \<Longrightarrow>
   \<exists>pre. map index_entry (all_orders book) = pre @ map index_entry (all_orders book')
         \<and> lk' = (\<lambda>x. if x \<in> fst ` set pre then None else lk x)"
proof (induction incoming book lk arbitrary: inc' book' lk' ts rule: matchAgainstBook_cases_induct)
  case (Stop incoming k level rest lk inc1 vol1 os1 lk1 ts1)
  from matchLevel_ids [OF Stop.hyps(3)] obtain pre where
    "map index_entry (orders level) = pre @ map index_entry os1"
    "lk1 = (\<lambda>x. if x \<in> fst ` set pre then None else lk x)"
    by blast
  with Stop show ?case by (auto simp: matchAgainstBook_eqs)
next
  case (Sweep incoming k level rest lk inc1 vol1 lk1 ts1)
  obtain i bk l t where r: "matchAgainstBook inc1 rest lk1 = (i, bk, l, t)"
    by (metis prod_cases4)
  from Sweep.prems Sweep.hyps r have eq: "book' = bk" "lk' = l"
    by (auto simp: matchAgainstBook_eqs)
  from matchLevel_ids [OF Sweep.hyps(3)] obtain pre1 where
    p1: "map index_entry (orders level) = pre1"
        "lk1 = (\<lambda>x. if x \<in> fst ` set pre1 then None else lk x)"
    by auto
  from Sweep.IH [OF r] obtain pre2 where
    p2: "map index_entry (all_orders rest) = pre2 @ map index_entry (all_orders bk)"
        "l = (\<lambda>x. if x \<in> fst ` set pre2 then None else lk1 x)"
    by blast
  have "map index_entry (all_orders ((k, level) # rest))
          = (pre1 @ pre2) @ map index_entry (all_orders book')"
    using p1 p2 eq by simp
  moreover have "lk' = (\<lambda>x. if x \<in> fst ` set (pre1 @ pre2) then None else lk x)"
    using p1 p2 eq by (auto simp: fun_eq_iff)
  ultimately show ?case by blast
qed (auto simp: matchAgainstBook_eqs)

lemma matchAgainstBook_keys:
  "matchAgainstBook incoming book lk = (inc', book', lk', ts) \<Longrightarrow>
   \<exists>kpre. map fst book = kpre @ map fst book'"
proof (induction incoming book lk arbitrary: inc' book' lk' ts rule: matchAgainstBook_cases_induct)
  case (Sweep incoming k level rest lk inc1 vol1 lk1 ts1)
  obtain i bk l t where r: "matchAgainstBook inc1 rest lk1 = (i, bk, l, t)"
    by (metis prod_cases4)
  from Sweep.prems Sweep.hyps r have eq: "book' = bk"
    by (auto simp: matchAgainstBook_eqs)
  from Sweep.IH [OF r] obtain kpre where "map fst rest = kpre @ map fst bk" by blast
  then have "map fst ((k, level) # rest) = (k # kpre) @ map fst book'"
    using eq by simp
  then show ?case by blast
qed (auto simp: matchAgainstBook_eqs)

section \<open>Levels, prices and quantities through the matching loop\<close>

lemma side_ok_simps [simp]:
  "side_ok s []"
  "side_ok s ((k, L) # rest) \<longleftrightarrow> level_ok s k L \<and> side_ok s rest"
  by (auto simp: side_ok_def)

lemma crosses_update [simp]:
  "crosses (incoming\<lparr>remainingQuantity := r\<rparr>) = crosses incoming"
  by (simp add: crosses_def fun_eq_iff)

lemma matchLevel_level_ok:
  assumes "matchLevel incoming (level_price L) (totalVolume L) (orders L) lk
             = (inc1, vol1, os1, lk1, ts1)"
    and "level_ok s k L" "os1 \<noteq> []"
  shows "level_ok s k (L\<lparr>totalVolume := vol1, orders := os1\<rparr>)"
proof -
  have "vol1 - sum_list (map remainingQuantity os1)
          = totalVolume L - sum_list (map remainingQuantity (orders L))"
    by (rule matchLevel_volume [OF assms(1)])
  with assms(2) have vol: "vol1 = sum_list (map remainingQuantity os1)"
    by (simp add: level_ok_def)
  have "remainingQuantity o' \<noteq> 0 \<and> side o' = s \<and> price o' = k" if "o' \<in> set os1" for o'
  proof -
    from matchLevel_orders [OF assms(1) that]
    consider "o' \<in> set (orders L)"
      | ord where "ord \<in> set (orders L)" "o' = ord\<lparr>remainingQuantity := remainingQuantity o'\<rparr>"
                  "remainingQuantity o' \<noteq> 0"
      by blast
    then show ?thesis
    proof cases
      case 1
      with assms(2) show ?thesis by (simp add: level_ok_def)
    next
      case 2
      from 2(1) assms(2) have "side ord = s" "price ord = k" by (simp_all add: level_ok_def)
      with 2(2,3) show ?thesis
        by (metis Order.select_convs(2,3) Order.surjective Order.update_convs(5))
    qed
  qed
  with vol assms(2,3) show ?thesis by (simp add: level_ok_def)
qed

lemma matchAgainstBook_side_ok:
  "matchAgainstBook incoming book lk = (inc', book', lk', ts) \<Longrightarrow> side_ok s book \<Longrightarrow>
   side_ok s book'"
proof (induction incoming book lk arbitrary: inc' book' lk' ts rule: matchAgainstBook_cases_induct)
  case (Stop incoming k level rest lk inc1 vol1 os1 lk1 ts1)
  from Stop.prems(2) have "level_ok s k level" "side_ok s rest" by simp_all
  with matchLevel_level_ok [OF Stop.hyps(3) _ Stop.hyps(4)] Stop.prems(1) Stop.hyps
  show ?case by (auto simp: matchAgainstBook_eqs)
next
  case (Sweep incoming k level rest lk inc1 vol1 lk1 ts1)
  obtain i bk l t where r: "matchAgainstBook inc1 rest lk1 = (i, bk, l, t)"
    by (metis prod_cases4)
  from Sweep.prems Sweep.hyps r have eq: "book' = bk"
    by (auto simp: matchAgainstBook_eqs)
  from Sweep.IH [OF r] Sweep.prems(2) eq show ?case by simp
qed (auto simp: matchAgainstBook_eqs)

lemma matchAgainstBook_unfilled:
  assumes "matchAgainstBook incoming book lk = (inc', book', lk', ts)" "\<not> isFilled inc'"
    and "sorted_wrt cmp (map fst book)" "\<forall>(k, L)\<in>set book. level_price L = k"
    and "\<And>k k'. \<not> crosses incoming k \<Longrightarrow> cmp k k' \<Longrightarrow> \<not> crosses incoming k'"
  shows "\<forall>k\<in>fst ` set book'. \<not> crosses incoming k"
  using assms
proof (induction incoming book lk arbitrary: inc' book' lk' ts rule: matchAgainstBook_cases_induct)
  case (NoCross incoming k level rest lk)
  then show ?case by (fastforce simp: matchAgainstBook_eqs)
next
  case (Sweep incoming k level rest lk inc1 vol1 lk1 ts1)
  obtain i bk l t where r: "matchAgainstBook inc1 rest lk1 = (i, bk, l, t)"
    by (metis prod_cases4)
  from Sweep.prems(1) Sweep.hyps r have eq: "book' = bk" "inc' = i"
    by (auto simp: matchAgainstBook_eqs)
  have c: "crosses inc1 = crosses incoming"
    using matchLevel_incoming [OF Sweep.hyps(3)] by (metis crosses_update)
  have "\<forall>k\<in>fst ` set bk. \<not> crosses inc1 k"
  proof (rule Sweep.IH [OF r])
    show "\<not> isFilled i" using Sweep.prems(2) eq by simp
    show "sorted_wrt cmp (map fst rest)" using Sweep.prems(3) by simp
    show "\<forall>(k, L)\<in>set rest. level_price L = k" using Sweep.prems(4) by simp
    show "\<And>k k'. \<not> crosses inc1 k \<Longrightarrow> cmp k k' \<Longrightarrow> \<not> crosses inc1 k'"
      using Sweep.prems(5) c by simp
  qed
  with c eq show ?case by simp
qed (auto simp: matchAgainstBook_eqs)

lemma matchAgainstBook_trades:
  "matchAgainstBook incoming book lk = (inc', book', lk', ts) \<Longrightarrow> t \<in> set ts \<Longrightarrow>
   takerOrderId t = order_id incoming
   \<and> (\<exists>(k, L)\<in>set book. trade_price t = level_price L \<and> crosses incoming (level_price L)
                          \<and> makerOrderId t \<in> order_id ` set (orders L))"
proof (induction incoming book lk arbitrary: inc' book' lk' ts rule: matchAgainstBook_cases_induct)
  case (Stop incoming k level rest lk inc1 vol1 os1 lk1 ts1)
  from Stop.prems Stop.hyps have "t \<in> set ts1" by (auto simp: matchAgainstBook_eqs)
  from matchLevel_trades [OF Stop.hyps(3) this] Stop.hyps(2) show ?case by auto
next
  case (Sweep incoming k level rest lk inc1 vol1 lk1 ts1)
  obtain i bk l t' where r: "matchAgainstBook inc1 rest lk1 = (i, bk, l, t')"
    by (metis prod_cases4)
  from Sweep.prems(1) Sweep.hyps r have eq: "ts = ts1 @ t'"
    by (auto simp: matchAgainstBook_eqs)
  have c: "crosses inc1 = crosses incoming" "order_id inc1 = order_id incoming"
    using matchLevel_incoming [OF Sweep.hyps(3)]
    by (metis crosses_update, metis Order.select_convs(1) Order.surjective Order.update_convs(5))
  from Sweep.prems(2) eq consider "t \<in> set ts1" | "t \<in> set t'" by auto
  then show ?case
  proof cases
    case 1
    from matchLevel_trades [OF Sweep.hyps(3) this] Sweep.hyps(2) show ?thesis by auto
  next
    case 2
    from Sweep.IH [OF r 2] c show ?thesis by auto
  qed
qed (auto simp: matchAgainstBook_eqs)

lemma sorted_wrt_const:
  "\<forall>x\<in>set xs. f x = c \<Longrightarrow> sorted_wrt (\<lambda>a b. a = b \<or> cmp a b) (map f xs)"
  by (induction xs) auto

lemma matchAgainstBook_trade_prices:
  assumes "matchAgainstBook incoming book lk = (inc', book', lk', ts)"
    and "sorted_wrt cmp (map fst book)" "\<forall>(k, L)\<in>set book. level_price L = k"
  shows "sorted_wrt (\<lambda>a b. a = b \<or> cmp a b) (map trade_price ts)"
  using assms
proof (induction incoming book lk arbitrary: inc' book' lk' ts rule: matchAgainstBook_cases_induct)
  case (Stop incoming k level rest lk inc1 vol1 os1 lk1 ts1)
  from Stop.prems Stop.hyps have "ts = ts1" by (auto simp: matchAgainstBook_eqs)
  moreover have "\<forall>t\<in>set ts1. trade_price t = level_price level"
    using matchLevel_trades [OF Stop.hyps(3)] by blast
  ultimately show ?case using sorted_wrt_const [of ts1 trade_price "level_price level" cmp] by simp
next
  case (Sweep incoming k level rest lk inc1 vol1 lk1 ts1)
  obtain i bk l t' where r: "matchAgainstBook inc1 rest lk1 = (i, bk, l, t')"
    by (metis prod_cases4)
  from Sweep.prems(1) Sweep.hyps r have eq: "ts = ts1 @ t'"
    by (auto simp: matchAgainstBook_eqs)
  have p1: "\<forall>t\<in>set ts1. trade_price t = k"
    using matchLevel_trades [OF Sweep.hyps(3)] Sweep.prems(3) by auto
  have p2: "\<forall>t\<in>set t'. cmp k (trade_price t)"
  proof
    fix t assume "t \<in> set t'"
    from matchAgainstBook_trades [OF r this] obtain k' L' where
      "(k', L') \<in> set rest" "trade_price t = level_price L'" by blast
    with Sweep.prems(2,3) show "cmp k (trade_price t)" by fastforce
  qed
  have "sorted_wrt (\<lambda>a b. a = b \<or> cmp a b) (map trade_price t')"
    using Sweep.IH [OF r] Sweep.prems(2,3) by simp
  with p1 p2 eq sorted_wrt_const [of ts1 trade_price k cmp] show ?case
    by (simp add: sorted_wrt_append)
qed (auto simp: matchAgainstBook_eqs)

lemma restingQty_append [simp]: "restingQty (xs @ ys) = restingQty xs + restingQty ys"
  by (simp add: restingQty_def)

lemma tradedQty_append [simp]: "tradedQty (xs @ ys) = tradedQty xs + tradedQty ys"
  by (simp add: tradedQty_def)

lemma matchAgainstBook_conservation:
  "matchAgainstBook incoming book lk = (inc', book', lk', ts) \<Longrightarrow>
   unat (remainingQuantity inc') + tradedQty ts = unat (remainingQuantity incoming)
   \<and> restingQty (all_orders book') + tradedQty ts = restingQty (all_orders book)"
proof (induction incoming book lk arbitrary: inc' book' lk' ts rule: matchAgainstBook_cases_induct)
  case (Stop incoming k level rest lk inc1 vol1 os1 lk1 ts1)
  with matchLevel_conservation [OF Stop.hyps(3)] show ?case
    by (auto simp: matchAgainstBook_eqs)
next
  case (Sweep incoming k level rest lk inc1 vol1 lk1 ts1)
  obtain i bk l t' where r: "matchAgainstBook inc1 rest lk1 = (i, bk, l, t')"
    by (metis prod_cases4)
  from Sweep.prems(1) Sweep.hyps r have eq: "ts = ts1 @ t'" "inc' = i" "book' = bk"
    by (auto simp: matchAgainstBook_eqs)
  from Sweep.IH [OF r] matchLevel_conservation [OF Sweep.hyps(3)] eq show ?case
    by (simp add: restingQty_def)
qed (auto simp: matchAgainstBook_eqs tradedQty_def)

section \<open>The containers, addToBook and cancelOrder on one side\<close>

lemma map_modify_keys [simp]: "map fst (map_modify k f book) = map fst book"
  by (induction book) auto

lemma map_index_keys: "fst ` set (map_index cmp k book) = insert k (fst ` set book)"
proof (induction book)
  case Nil
  show ?case by simp
next
  case (Cons kl rest)
  obtain k' v where kl: "kl = (k', v)" by (cases kl)
  show ?case
  proof (cases "k = k'")
    case True
    with kl show ?thesis by auto
  next
    case False
    with kl Cons.IH show ?thesis by (cases "cmp k k'") auto
  qed
qed

lemma map_index_sorted:
  assumes "transp cmp" "\<And>a b. a \<noteq> b \<Longrightarrow> \<not> cmp a b \<Longrightarrow> cmp b a"
  shows "sorted_wrt cmp (map fst book) \<Longrightarrow> sorted_wrt cmp (map fst (map_index cmp k book))"
proof (induction book)
  case Nil
  show ?case by simp
next
  case (Cons kl rest)
  obtain k' v where kl: "kl = (k', v)" by (cases kl)
  show ?case
  proof (cases "k = k'")
    case True
    with Cons.prems kl show ?thesis by simp
  next
    case ne: False
    show ?thesis
    proof (cases "cmp k k'")
      case True
      have "cmp k x" if "x \<in> fst ` set rest" for x
        using Cons.prems that True assms(1) kl by (auto dest: transpD)
      with True Cons.prems kl ne show ?thesis by auto
    next
      case False
      with ne assms(2) have "cmp k' k" by blast
      with False ne Cons kl show ?thesis
        using map_index_keys [of cmp k rest] by auto
    qed
  qed
qed

lemma erase_deref:
  "ord \<in> set os \<Longrightarrow> distinct (map order_id os) \<Longrightarrow>
   deref (order_id ord) os = Some ord
   \<and> (\<exists>xs ys. os = xs @ ord # ys \<and> erase (order_id ord) os = xs @ ys)"
proof (induction os)
  case Nil
  then show ?case by simp
next
  case (Cons a os)
  show ?case
  proof (cases "a = ord")
    case True
    then show ?thesis by (auto intro: exI [of _ "[]"])
  next
    case False
    with Cons.prems have in_os: "ord \<in> set os" and ne: "order_id a \<noteq> order_id ord"
      by auto
    from Cons.IH [OF in_os] Cons.prems(2) obtain xs ys where
      "deref (order_id ord) os = Some ord" "os = xs @ ord # ys"
      "erase (order_id ord) os = xs @ ys"
      by auto
    with ne have "deref (order_id ord) (a # os) = Some ord"
      "a # os = (a # xs) @ ord # ys" "erase (order_id ord) (a # os) = (a # xs) @ ys"
      by auto
    then show ?thesis by blast
  qed
qed

lemma addToBook_eq:
  "addToBook cmp ord book lk =
     (map_modify (price ord) (restOrder ord) (map_index cmp (price ord) book),
      if lk (order_id ord) = None then lk(order_id ord \<mapsto> locator ord) else lk)"
  unfolding addToBook_def restOrder_def [abs_def] locator_def Let_def by simp

lemma restOrder_orders [simp]: "orders (restOrder ord level) = orders level @ [ord]"
  by (simp add: restOrder_def Let_def)

lemma restOrder_new_ok:
  "remainingQuantity ord \<noteq> 0 \<Longrightarrow> level_ok (side ord) (price ord) (restOrder ord newLevel)"
  by (simp add: level_ok_def restOrder_def newLevel_def)

lemma restOrder_level_ok:
  "remainingQuantity ord \<noteq> 0 \<Longrightarrow> level_ok (side ord) (price ord) level \<Longrightarrow>
   level_ok (side ord) (price ord) (restOrder ord level)"
  by (auto simp: level_ok_def restOrder_def Let_def)

lemma insert_side_ok:
  "remainingQuantity ord \<noteq> 0 \<Longrightarrow> side_ok (side ord) book \<Longrightarrow>
   side_ok (side ord) (map_modify (price ord) (restOrder ord) (map_index cmp (price ord) book))"
  by (induction book) (auto simp: restOrder_new_ok restOrder_level_ok)

lemma insert_all_orders:
  "\<exists>xs ys. all_orders book = xs @ ys
     \<and> all_orders (map_modify (price ord) (restOrder ord) (map_index cmp (price ord) book))
         = xs @ ord # ys"
proof (induction book)
  case Nil
  show ?case by (simp add: newLevel_def)
next
  case (Cons kl rest)
  obtain k' v where kl: "kl = (k', v)" by (cases kl)
  from Cons.IH obtain xs ys where
    ih: "all_orders rest = xs @ ys"
        "all_orders (map_modify (price ord) (restOrder ord) (map_index cmp (price ord) rest))
           = xs @ ord # ys"
    by blast
  show ?case
  proof (cases "price ord = k'")
    case True
    have "all_orders (kl # rest) = orders v @ all_orders rest"
      "all_orders (map_modify (price ord) (restOrder ord) (map_index cmp (price ord) (kl # rest)))
         = orders v @ ord # all_orders rest"
      using True kl by simp_all
    then show ?thesis by blast
  next
    case ne: False
    show ?thesis
    proof (cases "cmp (price ord) k'")
      case True
      have "all_orders (kl # rest) = [] @ all_orders (kl # rest)"
        "all_orders (map_modify (price ord) (restOrder ord) (map_index cmp (price ord) (kl # rest)))
           = [] @ ord # all_orders (kl # rest)"
        using True ne kl by (simp_all add: newLevel_def)
      then show ?thesis by blast
    next
      case False
      have "all_orders (kl # rest) = (orders v @ xs) @ ys"
        "all_orders (map_modify (price ord) (restOrder ord) (map_index cmp (price ord) (kl # rest)))
           = (orders v @ xs) @ ord # ys"
        using False ne kl ih by simp_all
      then show ?thesis by blast
    qed
  qed
qed

lemma cancelInSide_other:
  "loc_price loc \<noteq> k \<Longrightarrow> cancelInSide loc ((k, L) # rest) = (k, L) # cancelInSide loc rest"
  by (auto simp: cancelInSide_def Let_def split: option.splits)

lemma cancelInSide_here:
  "cancelInSide loc ((loc_price loc, L) # rest) =
     (let os' = erase (iterator loc) (orders L);
          debit = (case deref (iterator loc) (orders L) of
                     None \<Rightarrow> 0 | Some ord \<Rightarrow> remainingQuantity ord)
      in if os' = [] then rest
         else (loc_price loc, L\<lparr>totalVolume := totalVolume L - debit, orders := os'\<rparr>) # rest)"
  by (simp add: cancelInSide_def Let_def)

lemma cancelInSide_resting:
  assumes "ord \<in> set (all_orders book)" "distinct (map order_id (all_orders book))"
    "side_ok s book" "distinct (map fst book)"
  shows "\<exists>xs ys. all_orders book = xs @ ord # ys
           \<and> all_orders (cancelInSide (locator ord) book) = xs @ ys
           \<and> side_ok s (cancelInSide (locator ord) book)
           \<and> (\<exists>ks. map fst (cancelInSide (locator ord) book) = ks
                    \<and> set ks \<subseteq> fst ` set book
                    \<and> (\<forall>cmp. sorted_wrt cmp (map fst book) \<longrightarrow> sorted_wrt cmp ks))"
  using assms
proof (induction book)
  case Nil
  then show ?case by simp
next
  case (Cons kl rest)
  obtain k L where kl: "kl = (k, L)" by (cases kl)
  from Cons.prems(3) kl have okL: "level_ok s k L" and ok_rest: "side_ok s rest"
    by simp_all
  show ?case
  proof (cases "ord \<in> set (orders L)")
    case True
    with okL have p: "price ord = k" by (simp add: level_ok_def)
    from Cons.prems(2) kl have dL: "distinct (map order_id (orders L))" by simp
    from erase_deref [OF True dL] obtain xs ys where
      d: "deref (order_id ord) (orders L) = Some ord" "orders L = xs @ ord # ys"
         "erase (order_id ord) (orders L) = xs @ ys"
      by blast
    have lp: "loc_price (locator ord) = k" "iterator (locator ord) = order_id ord"
      using p by (simp_all add: locator_def)
    show ?thesis
    proof (cases "xs @ ys = []")
      case True
      have c: "cancelInSide (locator ord) (kl # rest) = rest"
        using cancelInSide_here [of "locator ord" L rest] lp d True kl by (simp add: Let_def)
      have "all_orders (kl # rest) = [] @ ord # all_orders rest"
        using d True kl by simp
      moreover have "all_orders (cancelInSide (locator ord) (kl # rest)) = [] @ all_orders rest"
        using c by simp
      moreover have "side_ok s (cancelInSide (locator ord) (kl # rest))"
        using c ok_rest by simp
      moreover have "set (map fst (cancelInSide (locator ord) (kl # rest))) \<subseteq> fst ` set (kl # rest)"
        using c by auto
      moreover have "\<forall>cmp. sorted_wrt cmp (map fst (kl # rest))
                       \<longrightarrow> sorted_wrt cmp (map fst (cancelInSide (locator ord) (kl # rest)))"
        using c by simp
      ultimately show ?thesis by blast
    next
      case False
      define L' where "L' = L\<lparr>totalVolume := totalVolume L - remainingQuantity ord,
                               orders := xs @ ys\<rparr>"
      have c: "cancelInSide (locator ord) (kl # rest) = (k, L') # rest"
        using cancelInSide_here [of "locator ord" L rest] lp d False kl
        by (simp add: Let_def L'_def)
      have okL': "level_ok s k L'"
        using okL d False by (auto simp: level_ok_def L'_def)
      have "all_orders (kl # rest) = xs @ ord # (ys @ all_orders rest)"
        using d kl by simp
      moreover have "all_orders (cancelInSide (locator ord) (kl # rest))
                       = xs @ (ys @ all_orders rest)"
        using c by (simp add: L'_def)
      moreover have "side_ok s (cancelInSide (locator ord) (kl # rest))"
        using c ok_rest okL' by simp
      moreover have "map fst (cancelInSide (locator ord) (kl # rest)) = map fst (kl # rest)"
        using c kl by simp
      ultimately show ?thesis by auto
    qed
  next
    case False
    with Cons.prems(1) kl have in_rest: "ord \<in> set (all_orders rest)" by simp
    then obtain k' L' where kL': "(k', L') \<in> set rest" "ord \<in> set (orders L')"
      by (auto simp: all_orders_def)
    with ok_rest have "price ord = k'" by (auto simp: side_ok_def level_ok_def)
    moreover from kL' Cons.prems(4) kl have "k' \<noteq> k" by force
    ultimately have ne: "loc_price (locator ord) \<noteq> k" by (simp add: locator_def)
    have c: "cancelInSide (locator ord) (kl # rest) = (k, L) # cancelInSide (locator ord) rest"
      using cancelInSide_other [OF ne] kl by simp
    from Cons.prems(2,4) kl have "distinct (map order_id (all_orders rest))" "distinct (map fst rest)"
      by simp_all
    from Cons.IH [OF in_rest this(1) ok_rest this(2)] obtain xs ys where
      ih: "all_orders rest = xs @ ord # ys"
          "all_orders (cancelInSide (locator ord) rest) = xs @ ys"
          "side_ok s (cancelInSide (locator ord) rest)"
          "set (map fst (cancelInSide (locator ord) rest)) \<subseteq> fst ` set rest"
          "\<forall>cmp. sorted_wrt cmp (map fst rest)
               \<longrightarrow> sorted_wrt cmp (map fst (cancelInSide (locator ord) rest))"
      by auto
    have "all_orders (kl # rest) = (orders L @ xs) @ ord # ys"
      using ih kl by simp
    moreover have "all_orders (cancelInSide (locator ord) (kl # rest)) = (orders L @ xs) @ ys"
      using c ih by simp
    moreover have "side_ok s (cancelInSide (locator ord) (kl # rest))"
      using c ih okL by simp
    moreover have "set (map fst (cancelInSide (locator ord) (kl # rest))) \<subseteq> fst ` set (kl # rest)"
      using c ih kl by auto
    moreover have "\<forall>cmp. sorted_wrt cmp (map fst (kl # rest))
                     \<longrightarrow> sorted_wrt cmp (map fst (cancelInSide (locator ord) (kl # rest)))"
    proof (intro allI impI)
      fix cmp
      assume "sorted_wrt cmp (map fst (kl # rest))"
      then have "sorted_wrt cmp (map fst rest)" "\<forall>x\<in>fst ` set rest. cmp k x"
        using kl by auto
      with ih(4,5) have "sorted_wrt cmp (map fst (cancelInSide (locator ord) rest))"
        "\<forall>x\<in>set (map fst (cancelInSide (locator ord) rest)). cmp k x"
        by blast+
      then show "sorted_wrt cmp (map fst (cancelInSide (locator ord) (kl # rest)))"
        using c by simp
    qed
    ultimately show ?thesis by blast
  qed
qed

section \<open>The index and the matching step on the book\<close>

lemma map_of_drop_middle:
  "distinct (map fst (B @ P @ A)) \<Longrightarrow>
   (\<lambda>x. if x \<in> fst ` set P then None else map_of (B @ P @ A) x) = map_of (B @ A)"
proof (rule ext)
  fix x
  assume d: "distinct (map fst (B @ P @ A))"
  show "(if x \<in> fst ` set P then None else map_of (B @ P @ A) x) = map_of (B @ A) x"
  proof (cases "x \<in> fst ` set P")
    case True
    with d have "x \<notin> fst ` set B" "x \<notin> fst ` set A" by auto
    then have "map_of B x = None" "map_of A x = None" by (simp_all add: map_of_eq_None_iff)
    with True show ?thesis by (simp add: map_add_def)
  next
    case False
    then have "map_of P x = None" by (simp add: map_of_eq_None_iff)
    with False show ?thesis by (simp add: map_add_def split: option.splits)
  qed
qed

lemma map_of_insert_middle:
  "k \<notin> fst ` set (xs @ ys) \<Longrightarrow> map_of (xs @ (k, v) # ys) = (map_of (xs @ ys))(k \<mapsto> v)"
proof (rule ext)
  fix x
  assume "k \<notin> fst ` set (xs @ ys)"
  then have "map_of xs k = None" by (auto simp: map_of_eq_None_iff)
  then show "map_of (xs @ (k, v) # ys) x = ((map_of (xs @ ys))(k \<mapsto> v)) x"
    by (auto simp: map_add_def split: option.splits)
qed

lemma map_of_erase_middle:
  "distinct (map fst (xs @ (k, v) # ys)) \<Longrightarrow>
   (map_of (xs @ (k, v) # ys))(k := None) = map_of (xs @ ys)"
proof (rule ext)
  fix x
  assume d: "distinct (map fst (xs @ (k, v) # ys))"
  then have "map_of xs k = None" "map_of ys k = None" by (auto simp: map_of_eq_None_iff)
  then show "((map_of (xs @ (k, v) # ys))(k := None)) x = map_of (xs @ ys) x"
    by (auto simp: map_add_def split: option.splits)
qed

lemma index_of_dom: "dom (index_of os) = order_id ` set os"
  by (auto simp: index_of_def dom_map_of_conv_image_fst image_iff)

lemma fst_comp_index_entry [simp]: "fst \<circ> index_entry = order_id"
  by (simp add: fun_eq_iff)

lemma index_of_SomeD:
  "index_of os i = Some loc \<Longrightarrow> \<exists>ord\<in>set os. order_id ord = i \<and> loc = locator ord"
  by (auto simp: index_of_def index_entry_def dest!: map_of_SomeD)

lemma book_inv_empty: "book_inv emptyBook"
  by (simp add: book_inv_def emptyBook_def resting_def index_of_def uncrossed_def)

lemma sorted_wrt_suffix: "sorted_wrt cmp (xs @ ys) \<Longrightarrow> sorted_wrt cmp ys"
  by (simp add: sorted_wrt_append)

lemma matchAgainstBook_book:
  assumes m: "matchAgainstBook incoming book lk = (inc', book', lk', ts)"
    and s: "sorted_wrt cmp (map fst book)" and ok: "side_ok s book"
    and d: "distinct (map order_id (B @ all_orders book @ A))"
    and lk: "lk = index_of (B @ all_orders book @ A)"
  shows "sorted_wrt cmp (map fst book') \<and> side_ok s book'
         \<and> distinct (map order_id (B @ all_orders book' @ A))
         \<and> lk' = index_of (B @ all_orders book' @ A)
         \<and> fst ` set book' \<subseteq> fst ` set book
         \<and> order_id ` set (all_orders book') \<subseteq> order_id ` set (all_orders book)"
proof -
  from matchAgainstBook_keys [OF m] obtain kpre where k: "map fst book = kpre @ map fst book'"
    by blast
  from matchAgainstBook_ids [OF m] obtain pre where
    pre: "map index_entry (all_orders book) = pre @ map index_entry (all_orders book')"
         "lk' = (\<lambda>x. if x \<in> fst ` set pre then None else lk x)"
    by blast
  have ids: "map order_id (all_orders book) = map fst pre @ map order_id (all_orders book')"
    using arg_cong [OF pre(1), of "map fst"] by simp
  have 1: "sorted_wrt cmp (map fst book')"
    using s k by (simp add: sorted_wrt_append)
  have 2: "side_ok s book'"
    by (rule matchAgainstBook_side_ok [OF m ok])
  have 3: "distinct (map order_id (B @ all_orders book' @ A))"
    using d ids by auto
  have dd: "distinct (map fst (map index_entry B @ pre @ (map index_entry (all_orders book') @ map index_entry A)))"
    using d ids by simp
  have lk_eq: "lk = map_of (map index_entry B @ pre @ (map index_entry (all_orders book') @ map index_entry A))"
    using lk pre(1) unfolding index_of_def by (simp del: map_of_append)
  have "lk' = map_of (map index_entry B @ (map index_entry (all_orders book') @ map index_entry A))"
    unfolding pre(2) lk_eq by (rule map_of_drop_middle [OF dd])
  then have 4: "lk' = index_of (B @ all_orders book' @ A)"
    by (simp add: index_of_def del: map_of_append)
  have 5: "fst ` set book' \<subseteq> fst ` set book"
    using arg_cong [OF k, of set] by auto
  have 6: "order_id ` set (all_orders book') \<subseteq> order_id ` set (all_orders book)"
    using arg_cong [OF ids, of set] by auto
  from 1 2 3 4 5 6 show ?thesis by blast
qed

lemma buy_nocross: "side incoming = Buy \<Longrightarrow> \<not> crosses incoming k \<Longrightarrow> k < k' \<Longrightarrow> \<not> crosses incoming k'"
  by (auto simp: crosses_def)

lemma sell_nocross: "side incoming \<noteq> Buy \<Longrightarrow> \<not> crosses incoming k \<Longrightarrow> k' < k \<Longrightarrow> \<not> crosses incoming k'"
  by (auto simp: crosses_def)

lemma side_ok_level_price: "side_ok s book \<Longrightarrow> \<forall>(k, L)\<in>set book. level_price L = k"
  by (auto simp: side_ok_def level_ok_def)

lemma match_book_inv:
  assumes inv: "book_inv b" and m: "match incoming b = (inc', b', ts)"
  shows "book_inv b'"
    and "inc' = incoming\<lparr>remainingQuantity := remainingQuantity inc'\<rparr>"
    and "order_id ` set (resting b') \<subseteq> order_id ` set (resting b)"
    and "\<not> isFilled inc' \<Longrightarrow> side incoming = Buy \<Longrightarrow> \<forall>ka\<in>fst ` set (asks b'). price incoming < ka"
    and "\<not> isFilled inc' \<Longrightarrow> side incoming \<noteq> Buy \<Longrightarrow> \<forall>kb\<in>fst ` set (bids b'). kb < price incoming"
proof -
  show "book_inv b'" "inc' = incoming\<lparr>remainingQuantity := remainingQuantity inc'\<rparr>"
    "order_id ` set (resting b') \<subseteq> order_id ` set (resting b)"
  proof (atomize (full), cases "side incoming = Buy")
    case True
    with m obtain bk l where
      r: "matchAgainstBook incoming (asks b) (orderLookup b) = (inc', bk, l, ts)"
      and b': "b' = b\<lparr>asks := bk, orderLookup := l\<rparr>"
      by (auto simp: match_def split: prod.splits)
    have "sorted_wrt asksCompare (map fst bk) \<and> side_ok Sell bk
         \<and> distinct (map order_id (all_orders (bids b) @ all_orders bk @ []))
         \<and> l = index_of (all_orders (bids b) @ all_orders bk @ [])
         \<and> fst ` set bk \<subseteq> fst ` set (asks b)
         \<and> order_id ` set (all_orders bk) \<subseteq> order_id ` set (all_orders (asks b))"
      using inv by (intro matchAgainstBook_book [OF r]) (simp_all add: book_inv_def resting_def)
    then have f: "sorted_wrt asksCompare (map fst bk)" "side_ok Sell bk"
      "distinct (map order_id (all_orders (bids b) @ all_orders bk))"
      "l = index_of (all_orders (bids b) @ all_orders bk)"
      "fst ` set bk \<subseteq> fst ` set (asks b)"
      "order_id ` set (all_orders bk) \<subseteq> order_id ` set (all_orders (asks b))"
      by simp_all
    from inv have u: "\<forall>kb\<in>fst ` set (bids b). \<forall>ka\<in>fst ` set (asks b). kb < ka"
      by (simp add: book_inv_def uncrossed_def)
    have sides: "bids b' = bids b" "asks b' = bk" using b' by simp_all
    have "uncrossed b'"
      unfolding uncrossed_def sides using u f(5) by blast
    with inv b' f(1-4) have "book_inv b'"
      by (simp add: book_inv_def resting_def)
    moreover from f(6) b' have "order_id ` set (resting b') \<subseteq> order_id ` set (resting b)"
      by (auto simp: resting_def)
    ultimately
    show "book_inv b' \<and> inc' = incoming\<lparr>remainingQuantity := remainingQuantity inc'\<rparr>
          \<and> order_id ` set (resting b') \<subseteq> order_id ` set (resting b)"
      using matchAgainstBook_incoming [OF r] by simp
  next
    case False
    with m obtain bk l where
      r: "matchAgainstBook incoming (bids b) (orderLookup b) = (inc', bk, l, ts)"
      and b': "b' = b\<lparr>bids := bk, orderLookup := l\<rparr>"
      by (auto simp: match_def split: prod.splits)
    have "sorted_wrt bidsCompare (map fst bk) \<and> side_ok Buy bk
         \<and> distinct (map order_id ([] @ all_orders bk @ all_orders (asks b)))
         \<and> l = index_of ([] @ all_orders bk @ all_orders (asks b))
         \<and> fst ` set bk \<subseteq> fst ` set (bids b)
         \<and> order_id ` set (all_orders bk) \<subseteq> order_id ` set (all_orders (bids b))"
      using inv by (intro matchAgainstBook_book [OF r]) (simp_all add: book_inv_def resting_def)
    then have f: "sorted_wrt bidsCompare (map fst bk)" "side_ok Buy bk"
      "distinct (map order_id (all_orders bk @ all_orders (asks b)))"
      "l = index_of (all_orders bk @ all_orders (asks b))"
      "fst ` set bk \<subseteq> fst ` set (bids b)"
      "order_id ` set (all_orders bk) \<subseteq> order_id ` set (all_orders (bids b))"
      by simp_all
    from inv have u: "\<forall>kb\<in>fst ` set (bids b). \<forall>ka\<in>fst ` set (asks b). kb < ka"
      by (simp add: book_inv_def uncrossed_def)
    have sides: "bids b' = bk" "asks b' = asks b" using b' by simp_all
    have "uncrossed b'"
      unfolding uncrossed_def sides using u f(5) by blast
    with inv b' f(1-4) have "book_inv b'"
      by (simp add: book_inv_def resting_def)
    moreover from f(6) b' have "order_id ` set (resting b') \<subseteq> order_id ` set (resting b)"
      by (auto simp: resting_def)
    ultimately
    show "book_inv b' \<and> inc' = incoming\<lparr>remainingQuantity := remainingQuantity inc'\<rparr>
          \<and> order_id ` set (resting b') \<subseteq> order_id ` set (resting b)"
      using matchAgainstBook_incoming [OF r] by simp
  qed
next
  assume nf: "\<not> isFilled inc'" and buy: "side incoming = Buy"
  with m obtain bk l where
    r: "matchAgainstBook incoming (asks b) (orderLookup b) = (inc', bk, l, ts)"
    and b': "b' = b\<lparr>asks := bk, orderLookup := l\<rparr>"
    by (auto simp: match_def split: prod.splits)
  have "\<forall>k\<in>fst ` set bk. \<not> crosses incoming k"
    using inv buy
    by (intro matchAgainstBook_unfilled [OF r nf, of asksCompare])
       (auto simp: book_inv_def dest: side_ok_level_price buy_nocross)
  with buy b' show "\<forall>ka\<in>fst ` set (asks b'). price incoming < ka"
    by (auto simp: crosses_def)
next
  assume nf: "\<not> isFilled inc'" and sell: "side incoming \<noteq> Buy"
  with m obtain bk l where
    r: "matchAgainstBook incoming (bids b) (orderLookup b) = (inc', bk, l, ts)"
    and b': "b' = b\<lparr>bids := bk, orderLookup := l\<rparr>"
    by (auto simp: match_def split: prod.splits)
  have "\<forall>k\<in>fst ` set bk. \<not> crosses incoming k"
    using inv sell
    by (intro matchAgainstBook_unfilled [OF r nf, of bidsCompare])
       (auto simp: book_inv_def dest: side_ok_level_price sell_nocross)
  with sell b' show "\<forall>kb\<in>fst ` set (bids b'). kb < price incoming"
    by (auto simp: crosses_def)
qed

section \<open>The invariant holds in every reachable state\<close>

lemma addToBook_side:
  assumes a: "addToBook cmp ord book lk = (bk, l)"
    and nz: "remainingQuantity ord \<noteq> 0"
    and ok: "side_ok (side ord) book"
    and s: "sorted_wrt cmp (map fst book)"
    and tr: "transp cmp" and tot: "\<And>a b. a \<noteq> b \<Longrightarrow> \<not> cmp a b \<Longrightarrow> cmp b a"
    and d: "distinct (map order_id (B @ all_orders book @ A))"
    and lk: "lk = index_of (B @ all_orders book @ A)"
    and fresh: "order_id ord \<notin> order_id ` set (B @ all_orders book @ A)"
  shows "sorted_wrt cmp (map fst bk) \<and> side_ok (side ord) bk
         \<and> distinct (map order_id (B @ all_orders bk @ A))
         \<and> l = index_of (B @ all_orders bk @ A)
         \<and> fst ` set bk = insert (price ord) (fst ` set book)"
proof -
  from a have bk: "bk = map_modify (price ord) (restOrder ord) (map_index cmp (price ord) book)"
    and l: "l = (if lk (order_id ord) = None then lk(order_id ord \<mapsto> locator ord) else lk)"
    by (simp_all add: addToBook_eq)
  from insert_all_orders [of book ord cmp] obtain xs ys where
    xy: "all_orders book = xs @ ys" "all_orders bk = xs @ ord # ys"
    unfolding bk by blast
  have 1: "sorted_wrt cmp (map fst bk)"
    unfolding bk using map_index_sorted [OF tr tot s] by simp
  have 2: "side_ok (side ord) bk"
    unfolding bk by (rule insert_side_ok [OF nz ok])
  have 3: "distinct (map order_id (B @ all_orders bk @ A))"
    using d fresh xy by auto
  have "lk (order_id ord) = None"
    using fresh index_of_dom [of "B @ all_orders book @ A"] lk by (metis domIff)
  with l have l': "l = lk(order_id ord \<mapsto> locator ord)" by simp
  have nin: "order_id ord \<notin> fst ` set (map index_entry (B @ xs) @ map index_entry (ys @ A))"
    using fresh xy by (auto simp: image_iff)
  have "l = map_of (map index_entry (B @ xs) @ (order_id ord, locator ord) # map index_entry (ys @ A))"
    unfolding map_of_insert_middle [OF nin] l' lk index_of_def xy
    by (simp del: map_of_append)
  then have 4: "l = index_of (B @ all_orders bk @ A)"
    unfolding index_of_def xy by (simp add: index_entry_def del: map_of_append)
  have "fst ` set bk = set (map fst bk)" by simp
  also have "\<dots> = set (map fst (map_index cmp (price ord) book))"
    unfolding bk by (simp only: map_modify_keys)
  also have "\<dots> = insert (price ord) (fst ` set book)"
    using map_index_keys [of cmp "price ord" book] by simp
  finally have 5: "fst ` set bk = insert (price ord) (fst ` set book)" .
  from 1 2 3 4 5 show ?thesis by blast
qed

lemma addOrder_book_inv:
  assumes inv: "book_inv b"
  shows "book_inv (snd (addOrder ord b))"
proof (cases "orderLookup b (order_id ord) \<noteq> None")
  case True
  with inv show ?thesis by (simp add: addOrder_def)
next
  case nodup: False
  obtain ord' b' ts where m: "match ord b = (ord', b', ts)"
    by (metis prod_cases3)
  note mi = match_book_inv [OF inv m]
  have st: "side ord' = side ord" "price ord' = price ord" "order_id ord' = order_id ord"
    using mi(2) by (metis Order.select_convs(2) Order.surjective Order.update_convs(5),
        metis Order.select_convs(3) Order.surjective Order.update_convs(5),
        metis Order.select_convs(1) Order.surjective Order.update_convs(5))
  from nodup inv have "order_id ord \<notin> order_id ` set (resting b)"
    using index_of_dom [of "resting b"] by (auto simp: book_inv_def)
  with mi(3) have fresh: "order_id ord' \<notin> order_id ` set (resting b')"
    using st by auto
  show ?thesis
  proof (cases "isFilled ord'")
    case True
    with nodup m mi(1) show ?thesis by (simp add: addOrder_def)
  next
    case nf: False
    then have nz: "remainingQuantity ord' \<noteq> 0" by (simp add: isFilled_def)
    show ?thesis
    proof (cases "side ord = Buy")
      case buy: True
      obtain bk l where a: "addToBook bidsCompare ord' (bids b') (orderLookup b') = (bk, l)"
        by (cases "addToBook bidsCompare ord' (bids b') (orderLookup b')")
      have res: "snd (addOrder ord b) = b'\<lparr>bids := bk, orderLookup := l\<rparr>"
        using nodup m nf buy st a by (simp add: addOrder_def)
      have "sorted_wrt bidsCompare (map fst bk) \<and> side_ok (side ord') bk
         \<and> distinct (map order_id ([] @ all_orders bk @ all_orders (asks b')))
         \<and> l = index_of ([] @ all_orders bk @ all_orders (asks b'))
         \<and> fst ` set bk = insert (price ord') (fst ` set (bids b'))"
        using mi(1) fresh nz buy st
        by (intro addToBook_side [OF a]) (auto simp: book_inv_def resting_def transp_def)
      then have f: "sorted_wrt bidsCompare (map fst bk)" "side_ok Buy bk"
        "distinct (map order_id (all_orders bk @ all_orders (asks b')))"
        "l = index_of (all_orders bk @ all_orders (asks b'))"
        "fst ` set bk = insert (price ord) (fst ` set (bids b'))"
        using buy st by simp_all
      from mi(1) have u: "\<forall>kb\<in>fst ` set (bids b'). \<forall>ka\<in>fst ` set (asks b'). kb < ka"
        by (simp add: book_inv_def uncrossed_def)
      have "uncrossed (b'\<lparr>bids := bk, orderLookup := l\<rparr>)"
        unfolding uncrossed_def using u f(5) mi(4) [OF nf buy] by simp
      with mi(1) f(1-4) show ?thesis
        unfolding res by (simp add: book_inv_def resting_def)
    next
      case sell: False
      then have s: "side ord = Sell" by (cases "side ord") auto
      obtain bk l where a: "addToBook asksCompare ord' (asks b') (orderLookup b') = (bk, l)"
        by (cases "addToBook asksCompare ord' (asks b') (orderLookup b')")
      have res: "snd (addOrder ord b) = b'\<lparr>asks := bk, orderLookup := l\<rparr>"
        using nodup m nf sell st a by (simp add: addOrder_def)
      have "sorted_wrt asksCompare (map fst bk) \<and> side_ok (side ord') bk
         \<and> distinct (map order_id (all_orders (bids b') @ all_orders bk @ []))
         \<and> l = index_of (all_orders (bids b') @ all_orders bk @ [])
         \<and> fst ` set bk = insert (price ord') (fst ` set (asks b'))"
        using mi(1) fresh nz s st
        by (intro addToBook_side [OF a]) (auto simp: book_inv_def resting_def transp_def)
      then have f: "sorted_wrt asksCompare (map fst bk)" "side_ok Sell bk"
        "distinct (map order_id (all_orders (bids b') @ all_orders bk))"
        "l = index_of (all_orders (bids b') @ all_orders bk)"
        "fst ` set bk = insert (price ord) (fst ` set (asks b'))"
        using s st by simp_all
      from mi(1) have u: "\<forall>kb\<in>fst ` set (bids b'). \<forall>ka\<in>fst ` set (asks b'). kb < ka"
        by (simp add: book_inv_def uncrossed_def)
      have "uncrossed (b'\<lparr>asks := bk, orderLookup := l\<rparr>)"
        unfolding uncrossed_def using u f(5) mi(5) [OF nf sell] by simp
      with mi(1) f(1-4) show ?thesis
        unfolding res by (simp add: book_inv_def resting_def)
    qed
  qed
qed

lemma sorted_wrt_distinct_less: "sorted_wrt (<) (ks :: Price list) \<Longrightarrow> distinct ks"
  by (induction ks) auto

lemma sorted_wrt_distinct_greater: "sorted_wrt (\<lambda>a b. b < a) (ks :: Price list) \<Longrightarrow> distinct ks"
  by (induction ks) auto

lemma cancelOrder_found:
  assumes inv: "book_inv b" and f: "orderLookup b i = Some loc"
  shows "\<exists>ord xs ys. order_id ord = i \<and> loc = locator ord
           \<and> resting b = xs @ ord # ys
           \<and> resting (snd (cancelOrder i b)) = xs @ ys
           \<and> book_inv (snd (cancelOrder i b))"
proof -
  from inv f obtain ord where ord: "ord \<in> set (resting b)" "order_id ord = i" "loc = locator ord"
    using index_of_SomeD [of "resting b" i loc] by (auto simp: book_inv_def)
  from inv have d: "distinct (map order_id (all_orders (bids b) @ all_orders (asks b)))"
    and lk: "orderLookup b = index_of (all_orders (bids b) @ all_orders (asks b))"
    and okb: "side_ok Buy (bids b)" and oka: "side_ok Sell (asks b)"
    and sb: "sorted_wrt bidsCompare (map fst (bids b))"
    and sa: "sorted_wrt asksCompare (map fst (asks b))"
    and u: "\<forall>kb\<in>fst ` set (bids b). \<forall>ka\<in>fst ` set (asks b). kb < ka"
    by (simp_all add: book_inv_def resting_def uncrossed_def)
  have side_of: "side x = s" if "x \<in> set (all_orders bk)" "side_ok s bk" for x s bk
    using that by (auto simp: all_orders_def side_ok_def level_ok_def)
  show ?thesis
  proof (cases "ord \<in> set (all_orders (bids b))")
    case True
    then have "side ord = Buy" using okb side_of by blast
    with ord have ls: "loc_side loc = Buy" by (simp add: locator_def)
    define bk where "bk = cancelInSide loc (bids b)"
    have res: "snd (cancelOrder i b) = b\<lparr>bids := bk, orderLookup := (orderLookup b)(i := None)\<rparr>"
      using f ls by (simp add: cancelOrder_def bk_def)
    from d have db: "distinct (map order_id (all_orders (bids b)))" by simp
    from cancelInSide_resting [OF True db okb sorted_wrt_distinct_greater [OF sb]]
    obtain xs ys where
      c: "all_orders (bids b) = xs @ ord # ys" "all_orders bk = xs @ ys" "side_ok Buy bk"
         "set (map fst bk) \<subseteq> fst ` set (bids b)" "sorted_wrt bidsCompare (map fst bk)"
      unfolding bk_def ord(3) using sb by blast
    have dd: "distinct (map fst (map index_entry xs @ (i, loc) # map index_entry (ys @ all_orders (asks b))))"
      using d c(1) ord(2) by simp
    have "(orderLookup b)(i := None) = map_of (map index_entry xs @ map index_entry (ys @ all_orders (asks b)))"
      using map_of_erase_middle [OF dd] unfolding lk index_of_def c(1)
      by (simp add: index_entry_def ord del: map_of_append)
    then have 4: "(orderLookup b)(i := None) = index_of (all_orders bk @ all_orders (asks b))"
      unfolding index_of_def c(2) by (simp del: map_of_append)
    have 5: "distinct (map order_id (all_orders bk @ all_orders (asks b)))"
      using d c(1,2) by auto
    have kb: "fst ` set bk \<subseteq> fst ` set (bids b)" using c(4) by simp
    have "\<forall>kb\<in>fst ` set bk. \<forall>ka\<in>fst ` set (asks b). kb < ka"
      using u kb by blast
    then have 6: "uncrossed (b\<lparr>bids := bk, orderLookup := (orderLookup b)(i := None)\<rparr>)"
      by (simp add: uncrossed_def)
    have "book_inv (snd (cancelOrder i b))"
      unfolding res using c(3,5) 4 5 6 oka sa by (simp add: book_inv_def resting_def)
    moreover have "resting b = xs @ ord # (ys @ all_orders (asks b))"
      "resting (snd (cancelOrder i b)) = xs @ (ys @ all_orders (asks b))"
      unfolding res using c(1,2) by (simp_all add: resting_def)
    ultimately show ?thesis using ord by blast
  next
    case False
    with ord(1) have in_a: "ord \<in> set (all_orders (asks b))" by (simp add: resting_def)
    then have "side ord = Sell" using oka side_of by blast
    with ord have ls: "loc_side loc \<noteq> Buy" by (simp add: locator_def)
    define bk where "bk = cancelInSide loc (asks b)"
    have res: "snd (cancelOrder i b) = b\<lparr>asks := bk, orderLookup := (orderLookup b)(i := None)\<rparr>"
      using f ls by (simp add: cancelOrder_def bk_def)
    from d have da: "distinct (map order_id (all_orders (asks b)))" by simp
    from cancelInSide_resting [OF in_a da oka sorted_wrt_distinct_less [OF sa]]
    obtain xs ys where
      c: "all_orders (asks b) = xs @ ord # ys" "all_orders bk = xs @ ys" "side_ok Sell bk"
         "set (map fst bk) \<subseteq> fst ` set (asks b)" "sorted_wrt asksCompare (map fst bk)"
      unfolding bk_def ord(3) using sa by blast
    have dd: "distinct (map fst (map index_entry (all_orders (bids b) @ xs) @ (i, loc) # map index_entry ys))"
      using d c(1) ord(2) by simp
    have "(orderLookup b)(i := None) = map_of (map index_entry (all_orders (bids b) @ xs) @ map index_entry ys)"
      using map_of_erase_middle [OF dd] unfolding lk index_of_def c(1)
      by (simp add: index_entry_def ord del: map_of_append)
    then have 4: "(orderLookup b)(i := None) = index_of (all_orders (bids b) @ all_orders bk)"
      unfolding index_of_def c(2) by (simp del: map_of_append)
    have 5: "distinct (map order_id (all_orders (bids b) @ all_orders bk))"
      using d c(1,2) by auto
    have ka: "fst ` set bk \<subseteq> fst ` set (asks b)" using c(4) by simp
    have "\<forall>kb\<in>fst ` set (bids b). \<forall>ka\<in>fst ` set bk. kb < ka"
      using u ka by blast
    then have 6: "uncrossed (b\<lparr>asks := bk, orderLookup := (orderLookup b)(i := None)\<rparr>)"
      by (simp add: uncrossed_def)
    have "book_inv (snd (cancelOrder i b))"
      unfolding res using c(3,5) 4 5 6 okb sb by (simp add: book_inv_def resting_def)
    moreover have "resting b = (all_orders (bids b) @ xs) @ ord # ys"
      "resting (snd (cancelOrder i b)) = (all_orders (bids b) @ xs) @ ys"
      unfolding res using c(1,2) by (simp_all add: resting_def)
    ultimately show ?thesis using ord by blast
  qed
qed

lemma cancelOrder_book_inv: "book_inv b \<Longrightarrow> book_inv (snd (cancelOrder i b))"
proof (cases "orderLookup b i")
  case None
  assume "book_inv b"
  with None show ?thesis by (simp add: cancelOrder_def)
next
  case (Some loc)
  assume "book_inv b"
  from cancelOrder_found [OF this Some] show ?thesis by blast
qed

lemma applyOp_book_inv: "book_inv b \<Longrightarrow> book_inv (applyOp b op)"
  by (cases op) (simp_all add: addOrder_book_inv cancelOrder_book_inv)

lemma foldl_applyOp_book_inv: "book_inv b \<Longrightarrow> book_inv (foldl applyOp b ops)"
  by (induction ops arbitrary: b) (simp_all add: applyOp_book_inv)

lemma bookAfter_book_inv: "book_inv (bookAfter ops)"
  unfolding bookAfter_def by (rule foldl_applyOp_book_inv [OF book_inv_empty])

section \<open>Snapshots and sums\<close>

lemma levelInfos_prices [simp]: "map info_price (levelInfos book) = map fst book"
  by (induction book) (auto simp: levelInfos_def)

lemma levelInfos_Nil [simp]: "levelInfos book = [] \<longleftrightarrow> book = []"
  by (simp add: levelInfos_def)

lemma unat_sum_list:
  "unat (sum_list (map f xs) :: 64 word) = sum_list (map (\<lambda>x. unat (f x)) xs) mod 2 ^ 64"
proof (induction xs)
  case Nil
  show ?case by simp
next
  case (Cons x xs)
  have "unat (f x + sum_list (map f xs)) = (unat (f x) + unat (sum_list (map f xs))) mod 2 ^ 64"
    by (simp add: unat_word_ariths)
  also have "\<dots> = (unat (f x) + sum_list (map (\<lambda>x. unat (f x)) xs) mod 2 ^ 64) mod 2 ^ 64"
    by (simp only: Cons.IH)
  also have "\<dots> = (unat (f x) + sum_list (map (\<lambda>x. unat (f x)) xs)) mod 2 ^ 64"
    by (rule mod_add_right_eq)
  finally show ?case by simp
qed

section \<open>Trades of one add\<close>

lemma addOrder_trades:
  "fst (addOrder ord b) =
     (if orderLookup b (order_id ord) \<noteq> None then []
      else if side ord = Buy
           then snd (snd (snd (matchAgainstBook ord (asks b) (orderLookup b))))
           else snd (snd (snd (matchAgainstBook ord (bids b) (orderLookup b)))))"
  by (auto simp: addOrder_def match_def split: prod.splits)

section \<open>Conservation\<close>

lemma match_conservation:
  assumes "match ord b = (ord', b', ts)"
  shows "unat (remainingQuantity ord') + tradedQty ts = unat (remainingQuantity ord)"
    and "restingQty (resting b') + tradedQty ts = restingQty (resting b)"
proof -
  show "unat (remainingQuantity ord') + tradedQty ts = unat (remainingQuantity ord)"
    "restingQty (resting b') + tradedQty ts = restingQty (resting b)"
  proof (atomize (full), cases "side ord = Buy")
    case True
    with assms obtain bk l where
      r: "matchAgainstBook ord (asks b) (orderLookup b) = (ord', bk, l, ts)"
      and b': "b' = b\<lparr>asks := bk, orderLookup := l\<rparr>"
      by (auto simp: match_def split: prod.splits)
    from matchAgainstBook_conservation [OF r] b'
    show "unat (remainingQuantity ord') + tradedQty ts = unat (remainingQuantity ord)
          \<and> restingQty (resting b') + tradedQty ts = restingQty (resting b)"
      by (simp add: resting_def)
  next
    case False
    with assms obtain bk l where
      r: "matchAgainstBook ord (bids b) (orderLookup b) = (ord', bk, l, ts)"
      and b': "b' = b\<lparr>bids := bk, orderLookup := l\<rparr>"
      by (auto simp: match_def split: prod.splits)
    from matchAgainstBook_conservation [OF r] b'
    show "unat (remainingQuantity ord') + tradedQty ts = unat (remainingQuantity ord)
          \<and> restingQty (resting b') + tradedQty ts = restingQty (resting b)"
      by (simp add: resting_def)
  qed
qed

lemma addToBook_restingQty:
  "restingQty (all_orders (fst (addToBook cmp ord book lk)))
     = restingQty (all_orders book) + unat (remainingQuantity ord)"
proof -
  from insert_all_orders [of book ord cmp] obtain xs ys where
    "all_orders book = xs @ ys"
    "all_orders (map_modify (price ord) (restOrder ord) (map_index cmp (price ord) book))
       = xs @ ord # ys"
    by blast
  then show ?thesis by (simp add: addToBook_eq restingQty_def)
qed

lemma addOrder_restingQty:
  assumes "orderLookup b (order_id ord) = None" "match ord b = (ord', b', ts)"
  shows "restingQty (resting (snd (addOrder ord b)))
           = restingQty (resting b') + unat (remainingQuantity ord')"
proof (cases "isFilled ord'")
  case True
  with assms show ?thesis by (simp add: addOrder_def isFilled_def)
next
  case False
  show ?thesis
  proof (cases "side ord' = Buy")
    case True
    with False assms addToBook_restingQty [of bidsCompare ord' "bids b'" "orderLookup b'"]
    show ?thesis by (auto simp: addOrder_def resting_def split: prod.splits)
  next
    case sell: False
    with False assms addToBook_restingQty [of asksCompare ord' "asks b'" "orderLookup b'"]
    show ?thesis by (auto simp: addOrder_def resting_def split: prod.splits)
  qed
qed

lemma addOrder_conservation:
  "2 * int (tradedQty (fst (addOrder ord b))) = remainingDecrease ord b
   \<and> (order_id ord \<notin> dom (orderLookup b) \<longrightarrow>
        restingQty (resting (snd (addOrder ord b))) + 2 * tradedQty (fst (addOrder ord b))
          = unat (remainingQuantity ord) + restingQty (resting b))"
proof (cases "orderLookup b (order_id ord) \<noteq> None")
  case True
  then show ?thesis
    by (auto simp: addOrder_def remainingDecrease_def tradedQty_def)
next
  case False
  then have nodup: "orderLookup b (order_id ord) = None" by simp
  obtain ord' b' ts where m: "match ord b = (ord', b', ts)"
    by (metis prod_cases3)
  from nodup m have ts: "fst (addOrder ord b) = ts"
    by (simp add: addOrder_def split: prod.splits)
  note c = match_conservation [OF m]
  have "uint (remainingQuantity ord') + int (tradedQty ts) = uint (remainingQuantity ord)"
    "int (restingQty (resting b')) + int (tradedQty ts) = int (restingQty (resting b))"
    using c unfolding uint_nat by linarith+
  then have 1: "2 * int (tradedQty ts) = remainingDecrease ord b"
    using nodup m by (simp add: remainingDecrease_def)
  have 2: "restingQty (resting (snd (addOrder ord b))) + 2 * tradedQty ts
             = unat (remainingQuantity ord) + restingQty (resting b)"
    using addOrder_restingQty [OF nodup m] c by simp
  from 1 2 ts show ?thesis by simp
qed

lemma matchLevel_untouched:
  "matchLevel incoming lp vol os lk = (inc', vol', os', lk', ts) \<Longrightarrow> x \<in> set os \<Longrightarrow>
   order_id x \<notin> makerOrderId ` set ts \<Longrightarrow> x \<in> set os'"
proof (induction incoming vol os lk arbitrary: inc' vol' os' lk' ts rule: matchLevel_cases_induct)
  case (Consume incoming vol m rest lk)
  obtain i v os l t' where r: "matchLevel (incoming\<lparr>remainingQuantity := remainingQuantity incoming - remainingQuantity m\<rparr>)
                   lp (vol - remainingQuantity m) rest (lk(order_id m := None)) = (i, v, os, l, t')"
    by (metis prod_cases5)
  from Consume.prems(1) Consume.hyps r
  have eq: "ts = mkTrade lp (remainingQuantity m) m incoming # t'" "os' = os"
    by (auto simp: matchLevel_consume)
  with Consume.prems(2,3) have "x \<in> set rest" "order_id x \<notin> makerOrderId ` set t'"
    by (auto simp: mkTrade_def)
  with Consume.IH [OF r] eq show ?case by simp
qed (auto simp: matchLevel_filled matchLevel_partial mkTrade_def)

lemma matchAgainstBook_untouched:
  "matchAgainstBook incoming book lk = (inc', book', lk', ts) \<Longrightarrow> x \<in> set (all_orders book) \<Longrightarrow>
   order_id x \<notin> makerOrderId ` set ts \<Longrightarrow> x \<in> set (all_orders book')"
proof (induction incoming book lk arbitrary: inc' book' lk' ts rule: matchAgainstBook_cases_induct)
  case (Stop incoming k level rest lk inc1 vol1 os1 lk1 ts1)
  from Stop.prems(1) Stop.hyps
  have eq: "ts = ts1" "book' = (k, level\<lparr>totalVolume := vol1, orders := os1\<rparr>) # rest"
    by (auto simp: matchAgainstBook_eqs)
  with Stop.prems(2,3) matchLevel_untouched [OF Stop.hyps(3), of x] show ?case by auto
next
  case (Sweep incoming k level rest lk inc1 vol1 lk1 ts1)
  obtain i bk l t' where r: "matchAgainstBook inc1 rest lk1 = (i, bk, l, t')"
    by (metis prod_cases4)
  from Sweep.prems(1) Sweep.hyps r have eq: "ts = ts1 @ t'" "book' = bk"
    by (auto simp: matchAgainstBook_eqs)
  from Sweep.prems(3) eq have n: "order_id x \<notin> makerOrderId ` set ts1"
    "order_id x \<notin> makerOrderId ` set t'"
    by auto
  from matchLevel_untouched [OF Sweep.hyps(3) _ n(1)] have "x \<notin> set (orders level)"
    by auto
  with Sweep.prems(2) have "x \<in> set (all_orders rest)" by simp
  from Sweep.IH [OF r this n(2)] eq show ?case by simp
qed (auto simp: matchAgainstBook_eqs)

lemma match_untouched:
  assumes "match ord b = (ord', b', ts)" "x \<in> set (resting b)"
    "order_id x \<notin> makerOrderId ` set ts"
  shows "x \<in> set (resting b')"
proof (cases "side ord = Buy")
  case True
  with assms(1) obtain bk l where
    r: "matchAgainstBook ord (asks b) (orderLookup b) = (ord', bk, l, ts)"
    and b': "b' = b\<lparr>asks := bk, orderLookup := l\<rparr>"
    by (auto simp: match_def split: prod.splits)
  from assms(2,3) matchAgainstBook_untouched [OF r, of x] b' show ?thesis
    by (auto simp: resting_def)
next
  case False
  with assms(1) obtain bk l where
    r: "matchAgainstBook ord (bids b) (orderLookup b) = (ord', bk, l, ts)"
    and b': "b' = b\<lparr>bids := bk, orderLookup := l\<rparr>"
    by (auto simp: match_def split: prod.splits)
  from assms(2,3) matchAgainstBook_untouched [OF r, of x] b' show ?thesis
    by (auto simp: resting_def)
qed

lemma addToBook_keeps:
  "x \<in> set (all_orders book) \<Longrightarrow> x \<in> set (all_orders (fst (addToBook cmp ord book lk)))"
proof -
  assume x: "x \<in> set (all_orders book)"
  from insert_all_orders [of book ord cmp] obtain xs ys where
    "all_orders book = xs @ ys"
    "all_orders (map_modify (price ord) (restOrder ord) (map_index cmp (price ord) book))
       = xs @ ord # ys"
    by blast
  with x show ?thesis by (auto simp: addToBook_eq)
qed

lemma addOrder_untouched:
  assumes "x \<in> set (resting b)" "order_id x \<notin> makerOrderId ` set (fst (addOrder ord b))"
  shows "x \<in> set (resting (snd (addOrder ord b)))"
proof (cases "orderLookup b (order_id ord) \<noteq> None")
  case True
  with assms show ?thesis by (simp add: addOrder_def)
next
  case False
  then have nodup: "orderLookup b (order_id ord) = None" by simp
  obtain ord' b' ts where m: "match ord b = (ord', b', ts)"
    by (metis prod_cases3)
  from nodup m have ts: "fst (addOrder ord b) = ts"
    by (simp add: addOrder_def split: prod.splits)
  from match_untouched [OF m assms(1)] assms(2) ts have x: "x \<in> set (resting b')" by simp
  show ?thesis
  proof (cases "isFilled ord'")
    case True
    with nodup m x show ?thesis by (simp add: addOrder_def)
  next
    case nf: False
    show ?thesis
    proof (cases "side ord' = Buy")
      case True
      with nf nodup m x addToBook_keeps [of x "bids b'" bidsCompare ord' "orderLookup b'"]
      show ?thesis by (auto simp: addOrder_def resting_def split: prod.splits)
    next
      case False
      with nf nodup m x addToBook_keeps [of x "asks b'" asksCompare ord' "orderLookup b'"]
      show ?thesis by (auto simp: addOrder_def resting_def split: prod.splits)
    qed
  qed
qed

section \<open>What makes the worker invoke the book-update callback\<close>

text \<open>
  An admitted order that trades nothing and is not filled comes to rest. The worker
  invokes the book-update callback for an Add that returned trades, for an Add whose
  order came to rest, for a Cancel whose id was in the index, and for an Add whose id
  was already in the index when the queued order is not filled; for nothing else.
\<close>

lemma addOrder_rests:
  assumes nodup: "orderLookup b (order_id ord) = None"
    and nt: "fst (addOrder ord b) = []" and nz: "remainingQuantity ord \<noteq> 0"
  shows "order_id ord \<in> dom (orderLookup (snd (addOrder ord b)))"
proof -
  obtain ord' b' ts where m: "match ord b = (ord', b', ts)"
    by (metis prod_cases3)
  from nodup m nt have ts: "ts = []"
    by (auto simp: addOrder_def split: prod.splits if_splits)
  from match_conservation(1) [OF m] ts nz have nf: "\<not> isFilled ord'"
    by (auto simp: tradedQty_def isFilled_def unat_eq_zero)
  have st: "side ord' = side ord" "order_id ord' = order_id ord"
  proof -
    have "ord' = ord\<lparr>remainingQuantity := remainingQuantity ord'\<rparr>"
    proof (cases "side ord = Buy")
      case True
      with m obtain bk l where "matchAgainstBook ord (asks b) (orderLookup b) = (ord', bk, l, ts)"
        by (auto simp: match_def split: prod.splits)
      from matchAgainstBook_incoming [OF this] show ?thesis by simp
    next
      case False
      with m obtain bk l where "matchAgainstBook ord (bids b) (orderLookup b) = (ord', bk, l, ts)"
        by (auto simp: match_def split: prod.splits)
      from matchAgainstBook_incoming [OF this] show ?thesis by simp
    qed
    then show "side ord' = side ord" "order_id ord' = order_id ord"
      by (metis Order.select_convs(2) Order.surjective Order.update_convs(5),
          metis Order.select_convs(1) Order.surjective Order.update_convs(5))
  qed
  show ?thesis
  proof (cases "side ord = Buy")
    case True
    with nodup m nf st show ?thesis
      by (auto simp: addOrder_def addToBook_eq split: prod.splits if_splits)
  next
    case False
    with nodup m nf st show ?thesis
      by (auto simp: addOrder_def addToBook_eq split: prod.splits if_splits)
  qed
qed

lemma book_update_causes:
  assumes "BookUpdateEvent \<in> set (snd (processCommand cmd e))"
  shows "(\<exists>ord. cmd_type cmd = Add \<and> cmd_order cmd = Some ord
            \<and> (fst (addOrder ord (orderBook e)) \<noteq> []
                \<or> (order_id ord \<notin> dom (orderLookup (orderBook e))
                    \<and> order_id ord \<in> dom (orderLookup (snd (addOrder ord (orderBook e)))))
                \<or> (order_id ord \<in> dom (orderLookup (orderBook e))
                    \<and> remainingQuantity ord \<noteq> 0)))
         \<or> (\<exists>i. cmd_type cmd = Cancel \<and> cmd_orderId cmd = Some i
               \<and> i \<in> dom (orderLookup (orderBook e)))"
proof (cases "cmd_type cmd")
  case Add
  show ?thesis
  proof (cases "cmd_order cmd")
    case None
    with Add assms show ?thesis by (simp add: processCommand_def)
  next
    case (Some ord)
    with Add assms have c: "fst (addOrder ord (orderBook e)) \<noteq> [] \<or> remainingQuantity ord \<noteq> 0"
      by (auto simp: processCommand_def isFilled_def split: prod.splits if_splits)
    show ?thesis
    proof (cases "fst (addOrder ord (orderBook e)) = []")
      case False
      with Add Some show ?thesis by simp
    next
      case True
      with c have nz: "remainingQuantity ord \<noteq> 0" by simp
      show ?thesis
      proof (cases "orderLookup (orderBook e) (order_id ord)")
        case None
        from addOrder_rests [OF None True nz] None Add Some show ?thesis by auto
      next
        case (Some loc)
        with nz Add \<open>cmd_order cmd = Some ord\<close> show ?thesis by auto
      qed
    qed
  qed
next
  case Cancel
  show ?thesis
  proof (cases "cmd_orderId cmd")
    case None
    with Cancel assms show ?thesis by (simp add: processCommand_def)
  next
    case (Some i)
    with Cancel assms show ?thesis
      by (auto simp: processCommand_def cancelOrder_def split: prod.splits if_splits option.splits)
  qed
next
  case Stop
  with assms show ?thesis by (simp add: processCommand_def)
qed

section \<open>The claims\<close>

text \<open>
  Claim C1. After any sequence of adds and cancels on the empty book, when a further
  \<open>addOrder\<close> returns and both \<open>getBids\<close> and \<open>getAsks\<close> list at least one level,
  the highest bid price is strictly below the lowest ask price.
\<close>

theorem uncrossed_after_add:
  "let b' = snd (addOrder ord (bookAfter ops))
   in getBids b' \<noteq> [] \<and> getAsks b' \<noteq> [] \<longrightarrow>
      Max (set (map info_price (getBids b'))) < Min (set (map info_price (getAsks b')))"
proof -
  define b' where "b' = snd (addOrder ord (bookAfter ops))"
  have "book_inv b'"
    unfolding b'_def by (rule addOrder_book_inv [OF bookAfter_book_inv])
  then have u: "\<forall>kb\<in>fst ` set (bids b'). \<forall>ka\<in>fst ` set (asks b'). kb < ka"
    by (simp add: book_inv_def uncrossed_def)
  have "Max (fst ` set (bids b')) < Min (fst ` set (asks b'))"
    if "bids b' \<noteq> []" "asks b' \<noteq> []"
  proof -
    from that have "Max (fst ` set (bids b')) \<in> fst ` set (bids b')"
      "Min (fst ` set (asks b')) \<in> fst ` set (asks b')"
      by (simp_all only: Max_in Min_in finite_imageI finite_set image_is_empty set_empty not_False_eq_True)
    with u show ?thesis by blast
  qed
  then show ?thesis
    unfolding b'_def [symmetric] by (simp add: getBids_def getAsks_def)
qed

text \<open>Seed scenario 1: a bid at 100 and an ask at 101 rest side by side.\<close>

theorem uncrossed_after_add_witness:
  "getBids (snd (addOrder (mkOrder 2 Sell 101 5) (bookAfter [AddOrder (mkOrder 1 Buy 100 10)])))
     = [\<lparr>info_price = 100, info_quantity = 10\<rparr>]
   \<and> getAsks (snd (addOrder (mkOrder 2 Sell 101 5) (bookAfter [AddOrder (mkOrder 1 Buy 100 10)])))
     = [\<lparr>info_price = 101, info_quantity = 5\<rparr>]
   \<and> Max (set (map info_price (getBids (snd (addOrder (mkOrder 2 Sell 101 5)
            (bookAfter [AddOrder (mkOrder 1 Buy 100 10)]))))))
     < Min (set (map info_price (getAsks (snd (addOrder (mkOrder 2 Sell 101 5)
            (bookAfter [AddOrder (mkOrder 1 Buy 100 10)]))))))"
proof -
  have h1: "getBids (snd (addOrder (mkOrder 2 Sell 101 5) (bookAfter [AddOrder (mkOrder 1 Buy 100 10)])))
     = [\<lparr>info_price = 100, info_quantity = 10\<rparr>]"
    by (simp add: eval_defs)
  have h2: "getAsks (snd (addOrder (mkOrder 2 Sell 101 5) (bookAfter [AddOrder (mkOrder 1 Buy 100 10)])))
     = [\<lparr>info_price = 101, info_quantity = 5\<rparr>]"
    by (simp add: eval_defs)
  show ?thesis
    using uncrossed_after_add [of "mkOrder 2 Sell 101 5" "[AddOrder (mkOrder 1 Buy 100 10)]"]
    unfolding Let_def h1 h2 by simp
qed

text \<open>
  Claim C2. On a fresh book, after Sell id 1 at 100 for 2, Sell id 2 at 100 for 3 and
  Sell id 3 at 101 for 4, adding Buy id 4 at 101 for 8 returns the trades
  (100, 2, maker 1, taker 4), (100, 3, maker 2, taker 4), (101, 3, maker 3, taker 4) in
  that order; afterwards \<open>getAsks\<close> is the one level (101, 1) and \<open>getBids\<close> is empty.
\<close>

theorem seed_scenario_4:
  "let b = bookAfter [AddOrder (mkOrder 1 Sell 100 2), AddOrder (mkOrder 2 Sell 100 3),
                      AddOrder (mkOrder 3 Sell 101 4)];
       r = addOrder (mkOrder 4 Buy 101 8) b
   in fst r = [\<lparr>trade_price = 100, quantity = 2, makerOrderId = 1, takerOrderId = 4\<rparr>,
               \<lparr>trade_price = 100, quantity = 3, makerOrderId = 2, takerOrderId = 4\<rparr>,
               \<lparr>trade_price = 101, quantity = 3, makerOrderId = 3, takerOrderId = 4\<rparr>]
      \<and> getAsks (snd r) = [\<lparr>info_price = 101, info_quantity = 1\<rparr>]
      \<and> getBids (snd r) = []"
  by (simp add: eval_defs)

text \<open>
  Claim C3, at the input where the code departs from it. On a fresh engine with both
  callbacks set, after Add (Buy id 1 at 100 for 5) the command Add (Buy id 1 at 101
  for 7) has an id that is in the index; \<open>addOrder\<close> returns no trade and leaves the
  book as it was, and the worker still invokes the book-update callback: it tests the
  queued copy of the order, whose remaining quantity is 7.
\<close>

theorem duplicate_add_fires_book_update:
  "let e1 = fst (run [\<lparr>cmd_type = Add, cmd_order = Some (mkOrder 1 Buy 100 5),
                        cmd_orderId = None\<rparr>] newEngine);
       dup = mkOrder 1 Buy 101 7
   in order_id dup \<in> dom (orderLookup (orderBook e1))
      \<and> addOrder dup (orderBook e1) = ([], orderBook e1)
      \<and> processCommand \<lparr>cmd_type = Add, cmd_order = Some dup, cmd_orderId = None\<rparr> e1
          = (e1, [BookUpdateEvent])"
  by (simp add: eval_defs processCommand_def newEngine_def)

text \<open>The event list of the second command alone.\<close>

theorem duplicate_add_fires_book_update_witness:
  "snd (processCommand \<lparr>cmd_type = Add, cmd_order = Some (mkOrder 1 Buy 101 7), cmd_orderId = None\<rparr>
          (fst (run [\<lparr>cmd_type = Add, cmd_order = Some (mkOrder 1 Buy 100 5),
                      cmd_orderId = None\<rparr>] newEngine)))
     = [BookUpdateEvent]"
  using duplicate_add_fires_book_update unfolding Let_def by simp

text \<open>
  Claim C4. In every state of the book, adding an order whose id is a key of the index
  returns no trade and leaves the book as it was: both sides and the index.
\<close>

theorem duplicate_add_noop:
  "order_id ord \<in> dom (orderLookup b) \<Longrightarrow> addOrder ord b = ([], b)"
  by (auto simp: addOrder_def)

text \<open>Seed scenario 6: the second add of id 1 changes nothing; one level (100, 5) rests.\<close>

theorem duplicate_add_noop_witness:
  "order_id (mkOrder 1 Buy 101 7) \<in> dom (orderLookup (bookAfter [AddOrder (mkOrder 1 Buy 100 5)]))
   \<and> addOrder (mkOrder 1 Buy 101 7) (bookAfter [AddOrder (mkOrder 1 Buy 100 5)])
       = ([], bookAfter [AddOrder (mkOrder 1 Buy 100 5)])
   \<and> getBids (bookAfter [AddOrder (mkOrder 1 Buy 100 5)])
       = [\<lparr>info_price = 100, info_quantity = 5\<rparr>]"
proof -
  have h: "order_id (mkOrder 1 Buy 101 7)
             \<in> dom (orderLookup (bookAfter [AddOrder (mkOrder 1 Buy 100 5)]))"
    by (simp add: eval_defs)
  show ?thesis using h duplicate_add_noop [OF h] by (simp add: eval_defs)
qed

text \<open>
  Claim C5. In every state of the book reached from the empty book by adds and cancels,
  \<open>cancelOrder i\<close> returns true exactly when \<open>i\<close> is a key of the index, which is
  exactly when an order with id \<open>i\<close> rests. When it returns true, that order and no
  other has left the resting orders, whose order is otherwise kept, the index has lost
  the key \<open>i\<close> and nothing else, and no level is left with an empty list; each level's
  volume is again the 64-bit sum over its list. When it returns false the book is
  unchanged. A second \<open>cancelOrder i\<close> right after a successful one returns false and
  changes nothing.
\<close>

theorem cancel_semantics:
  "let b = bookAfter ops; found = fst (cancelOrder i b); b' = snd (cancelOrder i b)
   in (found \<longleftrightarrow> i \<in> dom (orderLookup b))
      \<and> (found \<longleftrightarrow> i \<in> order_id ` set (resting b))
      \<and> (found \<longrightarrow>
            (\<exists>ord xs ys. order_id ord = i \<and> resting b = xs @ ord # ys \<and> resting b' = xs @ ys)
            \<and> i \<notin> order_id ` set (resting b')
            \<and> orderLookup b' = (orderLookup b)(i := None)
            \<and> (\<forall>(k, L)\<in>set (bids b') \<union> set (asks b').
                  orders L \<noteq> [] \<and> totalVolume L = sum_list (map remainingQuantity (orders L))))
      \<and> (\<not> found \<longrightarrow> b' = b)
      \<and> (found \<longrightarrow> cancelOrder i b' = (False, b'))"
proof -
  define b where "b = bookAfter ops"
  have inv: "book_inv b" unfolding b_def by (rule bookAfter_book_inv)
  then have dom: "dom (orderLookup b) = order_id ` set (resting b)"
    by (simp add: book_inv_def index_of_dom)
  have "(fst (cancelOrder i b) \<longleftrightarrow> i \<in> dom (orderLookup b))
      \<and> (fst (cancelOrder i b) \<longleftrightarrow> i \<in> order_id ` set (resting b))
      \<and> (fst (cancelOrder i b) \<longrightarrow>
            (\<exists>ord xs ys. order_id ord = i \<and> resting b = xs @ ord # ys
                \<and> resting (snd (cancelOrder i b)) = xs @ ys)
            \<and> i \<notin> order_id ` set (resting (snd (cancelOrder i b)))
            \<and> orderLookup (snd (cancelOrder i b)) = (orderLookup b)(i := None)
            \<and> (\<forall>(k, L)\<in>set (bids (snd (cancelOrder i b))) \<union> set (asks (snd (cancelOrder i b))).
                  orders L \<noteq> [] \<and> totalVolume L = sum_list (map remainingQuantity (orders L))))
      \<and> (\<not> fst (cancelOrder i b) \<longrightarrow> snd (cancelOrder i b) = b)
      \<and> (fst (cancelOrder i b) \<longrightarrow>
            cancelOrder i (snd (cancelOrder i b)) = (False, snd (cancelOrder i b)))"
  proof (cases "orderLookup b i")
    case None
    then have "cancelOrder i b = (False, b)" by (simp add: cancelOrder_def)
    moreover from None dom have "i \<notin> dom (orderLookup b)" "i \<notin> order_id ` set (resting b)"
      by auto
    ultimately show ?thesis by simp
  next
    case (Some loc)
    define b' where "b' = snd (cancelOrder i b)"
    from Some have found: "fst (cancelOrder i b)" by (simp add: cancelOrder_def Let_def)
    from Some have lk': "orderLookup b' = (orderLookup b)(i := None)"
      by (simp add: cancelOrder_def Let_def b'_def)
    from cancelOrder_found [OF inv Some] obtain ord xs ys where
      c: "order_id ord = i" "resting b = xs @ ord # ys" "resting b' = xs @ ys" "book_inv b'"
      unfolding b'_def by blast
    from inv c(2) have "distinct (map order_id (xs @ ord # ys))" by (simp add: book_inv_def)
    with c(1,3) have gone: "i \<notin> order_id ` set (resting b')" by auto
    from c(4) have "\<forall>(k, L)\<in>set (bids b'). level_ok Buy k L" "\<forall>(k, L)\<in>set (asks b'). level_ok Sell k L"
      by (simp_all add: book_inv_def side_ok_def)
    then have lev: "\<forall>(k, L)\<in>set (bids b') \<union> set (asks b').
                  orders L \<noteq> [] \<and> totalVolume L = sum_list (map remainingQuantity (orders L))"
      by (auto simp: level_ok_def)
    from lk' have again: "cancelOrder i b' = (False, b')" by (simp add: cancelOrder_def)
    from Some dom have "i \<in> dom (orderLookup b)" "i \<in> order_id ` set (resting b)" by auto
    with found lk' c(1-3) gone lev again show ?thesis
      unfolding b'_def [symmetric] by blast
  qed
  then show ?thesis unfolding b_def Let_def .
qed

text \<open>Seed scenario 5: cancelling id 1 succeeds once, then fails; id 2 was never there.\<close>

theorem cancel_semantics_witness:
  "fst (cancelOrder 1 (bookAfter [AddOrder (mkOrder 1 Buy 100 5)]))
   \<and> 1 \<in> dom (orderLookup (bookAfter [AddOrder (mkOrder 1 Buy 100 5)]))
   \<and> getBids (snd (cancelOrder 1 (bookAfter [AddOrder (mkOrder 1 Buy 100 5)]))) = []
   \<and> cancelOrder 1 (snd (cancelOrder 1 (bookAfter [AddOrder (mkOrder 1 Buy 100 5)])))
       = (False, snd (cancelOrder 1 (bookAfter [AddOrder (mkOrder 1 Buy 100 5)])))
   \<and> \<not> fst (cancelOrder 2 (bookAfter [AddOrder (mkOrder 1 Buy 100 5)]))
   \<and> snd (cancelOrder 2 (bookAfter [AddOrder (mkOrder 1 Buy 100 5)]))
       = bookAfter [AddOrder (mkOrder 1 Buy 100 5)]"
proof -
  have h1: "fst (cancelOrder 1 (bookAfter [AddOrder (mkOrder 1 Buy 100 5)]))"
    by (simp add: eval_defs)
  have h2: "\<not> fst (cancelOrder 2 (bookAfter [AddOrder (mkOrder 1 Buy 100 5)]))"
    by (simp add: eval_defs)
  have h3: "getBids (snd (cancelOrder 1 (bookAfter [AddOrder (mkOrder 1 Buy 100 5)]))) = []"
    by (simp add: eval_defs)
  show ?thesis
    using h1 h2 h3
      cancel_semantics [where i = 1 and ops = "[AddOrder (mkOrder 1 Buy 100 5)]"]
      cancel_semantics [where i = 2 and ops = "[AddOrder (mkOrder 1 Buy 100 5)]"]
    unfolding Let_def by blast
qed

text \<open>
  Claim C6, as the code has it. In every state of the book reached from the empty book
  by adds and cancels, every level's \<open>totalVolume\<close> is the sum of the remaining
  quantities of its orders modulo \<open>2 ^ 64\<close>, no level has an empty list, no resting
  order has remaining quantity 0, and the keys of the index are the ids of the resting
  orders.
\<close>

theorem book_state_invariants:
  "let b = bookAfter ops
   in (\<forall>(k, L)\<in>set (bids b) \<union> set (asks b).
         unat (totalVolume L) = quantitySum L mod 2 ^ 64
         \<and> orders L \<noteq> []
         \<and> (\<forall>ord\<in>set (orders L). remainingQuantity ord \<noteq> 0))
      \<and> dom (orderLookup b) = order_id ` set (resting b)"
proof -
  have inv: "book_inv (bookAfter ops)" by (rule bookAfter_book_inv)
  have lev: "unat (totalVolume L) = quantitySum L mod 2 ^ 64 \<and> orders L \<noteq> []
             \<and> (\<forall>ord\<in>set (orders L). remainingQuantity ord \<noteq> 0)"
    if "level_ok s k L" for s k L
    using that by (simp add: level_ok_def quantitySum_def unat_sum_list)
  from inv have "\<forall>(k, L)\<in>set (bids (bookAfter ops)). level_ok Buy k L"
    "\<forall>(k, L)\<in>set (asks (bookAfter ops)). level_ok Sell k L"
    by (simp_all add: book_inv_def side_ok_def)
  with lev have "\<forall>(k, L)\<in>set (bids (bookAfter ops)) \<union> set (asks (bookAfter ops)).
         unat (totalVolume L) = quantitySum L mod 2 ^ 64
         \<and> orders L \<noteq> []
         \<and> (\<forall>ord\<in>set (orders L). remainingQuantity ord \<noteq> 0)"
    by blast
  moreover from inv have "dom (orderLookup (bookAfter ops)) = order_id ` set (resting (bookAfter ops))"
    by (simp add: book_inv_def index_of_dom)
  ultimately show ?thesis by (simp only: Let_def)
qed

text \<open>
  The sum itself can differ from \<open>totalVolume\<close>: two bids at 100 for \<open>2 ^ 63\<close> each
  leave one level whose \<open>totalVolume\<close> is 0 and whose remaining quantities add up to
  \<open>2 ^ 64\<close>.
\<close>

theorem total_volume_sum_counterexample:
  "bids (bookAfter [AddOrder (mkOrder 1 Buy 100 (2 ^ 63)), AddOrder (mkOrder 2 Buy 100 (2 ^ 63))])
     = [(100, \<lparr>level_price = 100, totalVolume = 0,
               orders = [mkOrder 1 Buy 100 (2 ^ 63), mkOrder 2 Buy 100 (2 ^ 63)]\<rparr>)]
   \<and> unat (totalVolume \<lparr>level_price = 100, totalVolume = 0,
               orders = [mkOrder 1 Buy 100 (2 ^ 63), mkOrder 2 Buy 100 (2 ^ 63)]\<rparr>) = 0
   \<and> quantitySum \<lparr>level_price = 100, totalVolume = 0,
               orders = [mkOrder 1 Buy 100 (2 ^ 63), mkOrder 2 Buy 100 (2 ^ 63)]\<rparr> = 2 ^ 64
   \<and> unat (totalVolume \<lparr>level_price = 100, totalVolume = 0,
               orders = [mkOrder 1 Buy 100 (2 ^ 63), mkOrder 2 Buy 100 (2 ^ 63)]\<rparr>)
       \<noteq> quantitySum \<lparr>level_price = 100, totalVolume = 0,
               orders = [mkOrder 1 Buy 100 (2 ^ 63), mkOrder 2 Buy 100 (2 ^ 63)]\<rparr>"
  by (simp add: eval_defs quantitySum_def)

theorem book_state_invariants_witness:
  "bids (bookAfter [AddOrder (mkOrder 1 Buy 100 (2 ^ 63)), AddOrder (mkOrder 2 Buy 100 (2 ^ 63))])
     = [(100, \<lparr>level_price = 100, totalVolume = 0,
               orders = [mkOrder 1 Buy 100 (2 ^ 63), mkOrder 2 Buy 100 (2 ^ 63)]\<rparr>)]
   \<and> asks (bookAfter [AddOrder (mkOrder 1 Buy 100 (2 ^ 63)), AddOrder (mkOrder 2 Buy 100 (2 ^ 63))])
     = []
   \<and> unat (0 :: Quantity)
     = quantitySum \<lparr>level_price = 100, totalVolume = 0,
         orders = [mkOrder 1 Buy 100 (2 ^ 63), mkOrder 2 Buy 100 (2 ^ 63)]\<rparr> mod 2 ^ 64
   \<and> dom (orderLookup (bookAfter [AddOrder (mkOrder 1 Buy 100 (2 ^ 63)),
                                    AddOrder (mkOrder 2 Buy 100 (2 ^ 63))]))
     = order_id ` set (resting (bookAfter [AddOrder (mkOrder 1 Buy 100 (2 ^ 63)),
                                           AddOrder (mkOrder 2 Buy 100 (2 ^ 63))]))"
proof -
  have h1: "bids (bookAfter [AddOrder (mkOrder 1 Buy 100 (2 ^ 63)),
                             AddOrder (mkOrder 2 Buy 100 (2 ^ 63))])
     = [(100, \<lparr>level_price = 100, totalVolume = 0,
               orders = [mkOrder 1 Buy 100 (2 ^ 63), mkOrder 2 Buy 100 (2 ^ 63)]\<rparr>)]"
    by (simp add: eval_defs)
  have h2: "asks (bookAfter [AddOrder (mkOrder 1 Buy 100 (2 ^ 63)),
                             AddOrder (mkOrder 2 Buy 100 (2 ^ 63))]) = []"
    by (simp add: eval_defs)
  show ?thesis
    using book_state_invariants [of "[AddOrder (mkOrder 1 Buy 100 (2 ^ 63)),
                                      AddOrder (mkOrder 2 Buy 100 (2 ^ 63))]"]
    unfolding Let_def h1 h2 by simp
qed

text \<open>
  Claim C7. In every state of the book reached from the empty book by adds and cancels,
  the prices of the trades that one \<open>addOrder\<close> returns never decrease along the list
  when the incoming order is a Buy and never increase when it is a Sell, and every trade
  has the price of a level of the opposite side, as key and as \<open>level_price\<close>, in
  whose list the maker rests.
\<close>

theorem trade_price_monotonicity:
  "let b = bookAfter ops; trades = fst (addOrder ord b)
   in (side ord = Buy \<longrightarrow> sorted_wrt (\<le>) (map trade_price trades))
      \<and> (side ord = Sell \<longrightarrow> sorted_wrt (\<ge>) (map trade_price trades))
      \<and> (\<forall>t\<in>set trades.
            \<exists>(k, L)\<in>set (if side ord = Buy then asks b else bids b).
              trade_price t = k \<and> level_price L = k
              \<and> makerOrderId t \<in> order_id ` set (orders L))"
proof -
  define b where "b = bookAfter ops"
  have inv: "book_inv b" unfolding b_def by (rule bookAfter_book_inv)
  have "(side ord = Buy \<longrightarrow> sorted_wrt (\<le>) (map trade_price (fst (addOrder ord b))))
      \<and> (side ord = Sell \<longrightarrow> sorted_wrt (\<ge>) (map trade_price (fst (addOrder ord b))))
      \<and> (\<forall>t\<in>set (fst (addOrder ord b)).
            \<exists>(k, L)\<in>set (if side ord = Buy then asks b else bids b).
              trade_price t = k \<and> level_price L = k
              \<and> makerOrderId t \<in> order_id ` set (orders L))"
  proof (cases "orderLookup b (order_id ord) \<noteq> None")
    case True
    then show ?thesis by (simp add: addOrder_trades)
  next
    case nodup: False
    show ?thesis
    proof (cases "side ord = Buy")
      case True
      obtain inc' bk l ts where r: "matchAgainstBook ord (asks b) (orderLookup b) = (inc', bk, l, ts)"
        by (metis prod_cases4)
      with nodup True have ts: "fst (addOrder ord b) = ts" by (simp add: addOrder_trades)
      from inv have s: "sorted_wrt asksCompare (map fst (asks b))" and "side_ok Sell (asks b)"
        by (simp_all add: book_inv_def)
      then have lp: "\<forall>(k, L)\<in>set (asks b). level_price L = k"
        by (intro side_ok_level_price)
      have "sorted_wrt (\<lambda>a b. a = b \<or> a < b) (map trade_price ts)"
        by (rule matchAgainstBook_trade_prices [OF r s lp])
      then have 1: "sorted_wrt (\<le>) (map trade_price ts)"
        by (rule sorted_wrt_mono_rel [rotated]) auto
      have 2: "\<exists>(k, L)\<in>set (asks b). trade_price t = k \<and> level_price L = k
                 \<and> makerOrderId t \<in> order_id ` set (orders L)" if "t \<in> set ts" for t
        using matchAgainstBook_trades [OF r that] lp by fastforce
      from 1 2 True ts show ?thesis by simp
    next
      case False
      then have sell: "side ord = Sell" by (cases "side ord") auto
      obtain inc' bk l ts where r: "matchAgainstBook ord (bids b) (orderLookup b) = (inc', bk, l, ts)"
        by (metis prod_cases4)
      with nodup False have ts: "fst (addOrder ord b) = ts" by (simp add: addOrder_trades)
      from inv have s: "sorted_wrt bidsCompare (map fst (bids b))" and "side_ok Buy (bids b)"
        by (simp_all add: book_inv_def)
      then have lp: "\<forall>(k, L)\<in>set (bids b). level_price L = k"
        by (intro side_ok_level_price)
      have "sorted_wrt (\<lambda>a b. a = b \<or> b < a) (map trade_price ts)"
        by (rule matchAgainstBook_trade_prices [OF r s lp])
      then have 1: "sorted_wrt (\<ge>) (map trade_price ts)"
        by (rule sorted_wrt_mono_rel [rotated]) auto
      have 2: "\<exists>(k, L)\<in>set (bids b). trade_price t = k \<and> level_price L = k
                 \<and> makerOrderId t \<in> order_id ` set (orders L)" if "t \<in> set ts" for t
        using matchAgainstBook_trades [OF r that] lp by fastforce
      from 1 2 sell ts show ?thesis by simp
    qed
  qed
  then show ?thesis unfolding b_def Let_def .
qed

text \<open>Seed scenario 4: the trade prices are 100, 100, 101.\<close>

theorem trade_price_monotonicity_witness:
  "side (mkOrder 4 Buy 101 8) = Buy
   \<and> map trade_price (fst (addOrder (mkOrder 4 Buy 101 8)
        (bookAfter [AddOrder (mkOrder 1 Sell 100 2), AddOrder (mkOrder 2 Sell 100 3),
                    AddOrder (mkOrder 3 Sell 101 4)]))) = [100, 100, 101]
   \<and> sorted_wrt (\<le>) (map trade_price (fst (addOrder (mkOrder 4 Buy 101 8)
        (bookAfter [AddOrder (mkOrder 1 Sell 100 2), AddOrder (mkOrder 2 Sell 100 3),
                    AddOrder (mkOrder 3 Sell 101 4)]))))"
proof -
  have h1: "side (mkOrder 4 Buy 101 8) = Buy" by (simp add: mkOrder_def)
  have h2: "map trade_price (fst (addOrder (mkOrder 4 Buy 101 8)
        (bookAfter [AddOrder (mkOrder 1 Sell 100 2), AddOrder (mkOrder 2 Sell 100 3),
                    AddOrder (mkOrder 3 Sell 101 4)]))) = [100, 100, 101]"
    by (simp add: eval_defs)
  show ?thesis
    using h1 h2
      trade_price_monotonicity [where ord = "mkOrder 4 Buy 101 8"
        and ops = "[AddOrder (mkOrder 1 Sell 100 2), AddOrder (mkOrder 2 Sell 100 3),
                    AddOrder (mkOrder 3 Sell 101 4)]"]
    unfolding Let_def by blast
qed

text \<open>
  Claim C8. In every state of the book and for every incoming order, twice the sum of
  the quantities of the trades that \<open>addOrder\<close> returns is the decrease in remaining
  quantity summed over the incoming order and the resting orders. When the order is
  admitted, the remaining quantity resting after the call plus twice the traded quantity
  is the order's remaining quantity plus the remaining quantity resting before. A resting
  order that is the maker of none of the returned trades rests after the call as it did
  before: the decrease is that of the incoming order and of the makers.
\<close>

theorem trade_conservation:
  "2 * int (tradedQty (fst (addOrder ord b))) = remainingDecrease ord b
   \<and> (order_id ord \<notin> dom (orderLookup b) \<longrightarrow>
        restingQty (resting (snd (addOrder ord b))) + 2 * tradedQty (fst (addOrder ord b))
          = unat (remainingQuantity ord) + restingQty (resting b))
   \<and> (\<forall>x\<in>set (resting b).
        order_id x \<notin> makerOrderId ` set (fst (addOrder ord b)) \<longrightarrow>
        x \<in> set (resting (snd (addOrder ord b))))"
  using addOrder_conservation [of ord b] addOrder_untouched [of _ b ord] by blast

text \<open>Seed scenario 3 with a second ask further out: a Buy for 5 meets a Sell for 3 at 100;
  3 trade, 6 are gone, 2 rest, and the Sell at 105 rests as it did.\<close>

theorem trade_conservation_witness:
  "order_id (mkOrder 2 Buy 100 5)
     \<notin> dom (orderLookup (bookAfter [AddOrder (mkOrder 1 Sell 100 3), AddOrder (mkOrder 7 Sell 105 4)]))
   \<and> fst (addOrder (mkOrder 2 Buy 100 5)
        (bookAfter [AddOrder (mkOrder 1 Sell 100 3), AddOrder (mkOrder 7 Sell 105 4)]))
       = [\<lparr>trade_price = 100, quantity = 3, makerOrderId = 1, takerOrderId = 2\<rparr>]
   \<and> remainingDecrease (mkOrder 2 Buy 100 5)
        (bookAfter [AddOrder (mkOrder 1 Sell 100 3), AddOrder (mkOrder 7 Sell 105 4)]) = 6
   \<and> restingQty (resting (bookAfter [AddOrder (mkOrder 1 Sell 100 3),
                                      AddOrder (mkOrder 7 Sell 105 4)])) = 7
   \<and> restingQty (resting (snd (addOrder (mkOrder 2 Buy 100 5)
        (bookAfter [AddOrder (mkOrder 1 Sell 100 3), AddOrder (mkOrder 7 Sell 105 4)])))) = 6
   \<and> mkOrder 7 Sell 105 4 \<in> set (resting (snd (addOrder (mkOrder 2 Buy 100 5)
        (bookAfter [AddOrder (mkOrder 1 Sell 100 3), AddOrder (mkOrder 7 Sell 105 4)]))))"
proof -
  have h1: "order_id (mkOrder 2 Buy 100 5)
              \<notin> dom (orderLookup (bookAfter [AddOrder (mkOrder 1 Sell 100 3),
                                              AddOrder (mkOrder 7 Sell 105 4)]))"
    by (simp add: eval_defs)
  have h2: "fst (addOrder (mkOrder 2 Buy 100 5)
              (bookAfter [AddOrder (mkOrder 1 Sell 100 3), AddOrder (mkOrder 7 Sell 105 4)]))
              = [\<lparr>trade_price = 100, quantity = 3, makerOrderId = 1, takerOrderId = 2\<rparr>]"
    by (simp add: eval_defs)
  have h3: "resting (bookAfter [AddOrder (mkOrder 1 Sell 100 3), AddOrder (mkOrder 7 Sell 105 4)])
              = [mkOrder 1 Sell 100 3, mkOrder 7 Sell 105 4]"
    by (simp add: eval_defs resting_def)
  have h4: "unat (remainingQuantity (mkOrder 2 Buy 100 5)) = 5"
    by (simp add: mkOrder_def)
  have h5: "restingQty [mkOrder 1 Sell 100 3, mkOrder 7 Sell 105 4] = 7"
    by (simp add: restingQty_def mkOrder_def)
  have h6: "order_id (mkOrder 7 Sell 105 4) \<noteq> 1"
    by (simp add: mkOrder_def)
  show ?thesis
    using h1 h6
      trade_conservation [of "mkOrder 2 Buy 100 5"
        "bookAfter [AddOrder (mkOrder 1 Sell 100 3), AddOrder (mkOrder 7 Sell 105 4)]"]
    unfolding h2 h3 h4 h5 by (simp add: tradedQty_def)
qed

text \<open>
  Claim C9. For an order whose remaining quantity is its initial quantity and is not
  zero, adding it to the empty book and then cancelling its id returns true from the
  cancel and leaves both sides and the index empty.
\<close>

theorem cancel_undoes_add:
  "remainingQuantity ord = initialQuantity ord \<Longrightarrow> initialQuantity ord \<noteq> 0 \<Longrightarrow>
   (case cancelOrder (order_id ord) (snd (addOrder ord emptyBook)) of
      (found, b) \<Rightarrow> found \<and> bids b = [] \<and> asks b = [] \<and> orderLookup b = Map.empty)"
  by (cases "side ord") (simp_all add: eval_defs)

theorem cancel_undoes_add_witness:
  "remainingQuantity (mkOrder 7 Sell 100 5) = initialQuantity (mkOrder 7 Sell 100 5)
   \<and> initialQuantity (mkOrder 7 Sell 100 5) \<noteq> 0
   \<and> getAsks (snd (addOrder (mkOrder 7 Sell 100 5) emptyBook))
       = [\<lparr>info_price = 100, info_quantity = 5\<rparr>]
   \<and> (case cancelOrder 7 (snd (addOrder (mkOrder 7 Sell 100 5) emptyBook)) of
        (found, b) \<Rightarrow> found \<and> bids b = [] \<and> asks b = [] \<and> orderLookup b = Map.empty)"
proof -
  have h1: "remainingQuantity (mkOrder 7 Sell 100 5) = initialQuantity (mkOrder 7 Sell 100 5)"
    by (simp add: mkOrder_def)
  have h2: "initialQuantity (mkOrder 7 Sell 100 5) \<noteq> 0"
    by (simp add: mkOrder_def)
  have h3: "order_id (mkOrder 7 Sell 100 5) = 7"
    by (simp add: mkOrder_def)
  have h4: "getAsks (snd (addOrder (mkOrder 7 Sell 100 5) emptyBook))
              = [\<lparr>info_price = 100, info_quantity = 5\<rparr>]"
    by (simp add: eval_defs)
  show ?thesis using h1 h2 h4 cancel_undoes_add [OF h1 h2] unfolding h3 by simp
qed

text \<open>
  Claim C10. In every state of the book, adding an order of remaining quantity 0 whose
  id is not in the index returns no trade and leaves the book and the index as they
  were; the worker, given such an Add command, invokes neither callback and goes on to
  the next command with the engine unchanged.
\<close>

theorem zero_quantity_add_noop:
  "remainingQuantity ord = 0 \<Longrightarrow> order_id ord \<notin> dom (orderLookup (orderBook e)) \<Longrightarrow>
   addOrder ord (orderBook e) = ([], orderBook e)
   \<and> processCommand \<lparr>cmd_type = Add, cmd_order = Some ord, cmd_orderId = oi\<rparr> e = (e, [])
   \<and> run (\<lparr>cmd_type = Add, cmd_order = Some ord, cmd_orderId = oi\<rparr> # queue) e = run queue e"
  by (auto simp: addOrder_def processCommand_def match_filled isFilled_def)

theorem zero_quantity_add_noop_witness:
  "remainingQuantity (mkOrder 9 Buy 100 0) = 0
   \<and> order_id (mkOrder 9 Buy 100 0) \<notin> dom (orderLookup (orderBook newEngine))
   \<and> addOrder (mkOrder 9 Buy 100 0) (orderBook newEngine) = ([], orderBook newEngine)
   \<and> processCommand \<lparr>cmd_type = Add, cmd_order = Some (mkOrder 9 Buy 100 0),
                       cmd_orderId = None\<rparr> newEngine = (newEngine, [])
   \<and> run [\<lparr>cmd_type = Add, cmd_order = Some (mkOrder 9 Buy 100 0), cmd_orderId = None\<rparr>]
         newEngine = (newEngine, [])"
proof -
  have h1: "remainingQuantity (mkOrder 9 Buy 100 0) = 0"
    by (simp add: mkOrder_def)
  have h2: "order_id (mkOrder 9 Buy 100 0) \<notin> dom (orderLookup (orderBook newEngine))"
    by (simp add: mkOrder_def newEngine_def emptyBook_def)
  show ?thesis
    using h1 h2 zero_quantity_add_noop [OF h1 h2, of None "[]"] by simp
qed

end
